theory Spec2Isabelle
  imports Main "HOL-Library.Word"
begin

unbundle bit_operations_syntax

section \<open>ECIES.cpp: data, outcomes and the log of library calls\<close>

text \<open>
  The file composes OpenSSL primitives: ECDH with a SHA-256 key derivation, HMAC-SHA256 and
  AES-256 in CBC mode through the EVP streaming interface. The model keeps the control flow,
  the buffer arithmetic and every \<^verbatim>\<open>throw\<close> and \<^verbatim>\<open>assert\<close> of the source. OpenSSL itself
  is not part of the repository: what its primitives compute (the curve arithmetic, the
  hash, the block cipher, whether a call reports success) is a parameter, the record
  \<open>openssl\<close> below, and the EVP buffering around the block cipher is written out after
  OpenSSL's \<^verbatim>\<open>evp_enc.c\<close>.
\<close>

type_synonym byte = "8 word"
type_synonym bytes = "byte list"

definition ECIES_KEY_LENGTH :: nat where [simp]: "ECIES_KEY_LENGTH = 256 div 8"
definition ECIES_ENC_KEY_SIZE :: nat where [simp]: "ECIES_ENC_KEY_SIZE = 256 div 8"
definition ECIES_ENC_BLK_SIZE :: nat where [simp]: "ECIES_ENC_BLK_SIZE = 128 div 8"
definition ECIES_HMAC_SIZE :: nat where [simp]: "ECIES_HMAC_SIZE = 256 div 8"
definition EVP_MAX_MD_SIZE :: nat where [simp]: "EVP_MAX_MD_SIZE = 64"

text \<open>
  Every failure of the source is a \<^verbatim>\<open>std::runtime_error\<close> told apart by its message
  only, or a failed \<^verbatim>\<open>assert\<close> (the file includes \<^verbatim>\<open>cassert\<close>; assertions are modelled
  as enabled).
\<close>

datatype error = runtime_error string | assertion_failed

datatype api =
    API_ECDH_compute_key
  | API_HMAC_Init_ex | API_HMAC_Update | API_HMAC_Final
  | API_RAND_bytes
  | API_EVP_EncryptInit_ex | API_EVP_EncryptUpdate | API_EVP_EncryptFinal_ex
  | API_EVP_DecryptInit_ex | API_EVP_DecryptUpdate | API_EVP_DecryptFinal

text \<open>
  An operation returns the log of what it did, in order, and its result. The log holds the
  calls of OpenSSL's computing primitives with the value each returned (accessors, context
  set-up and clean-up are not logged), the comparison of the two MACs with its result, and
  each \<^verbatim>\<open>front()\<close> taken of an empty vector.
\<close>

datatype event =
    Call api int
  | hmac_compared bool
  | front_of_empty_vector

type_synonym 'a outcome = "event list \<times> (error + 'a)"

definition ret :: "'a \<Rightarrow> 'a outcome" where
  "ret x = ([], Inr x)"

definition throw :: "error \<Rightarrow> 'a outcome" where
  "throw e = ([], Inl e)"

definition emit :: "event \<Rightarrow> unit outcome" where
  "emit ev = ([ev], Inr ())"

definition bnd :: "'a outcome \<Rightarrow> ('a \<Rightarrow> 'b outcome) \<Rightarrow> 'b outcome" where
  "bnd m f = (case m of
                (l, Inl e) \<Rightarrow> (l, Inl e)
              | (l, Inr x) \<Rightarrow> (case f x of (l', r) \<Rightarrow> (l @ l', r)))"

definition call :: "api \<Rightarrow> int \<Rightarrow> unit outcome" where
  "call a r = emit (Call a r)"

definition cassert :: "bool \<Rightarrow> unit outcome" where
  "cassert b = (if b then ret () else throw assertion_failed)"

text \<open>
  \<^verbatim>\<open>&(v.front())\<close>: on an empty vector \<^verbatim>\<open>front()\<close> has undefined behaviour. Every call
  of the source passes the address on together with \<^verbatim>\<open>v.size()\<close>, so that no byte is read
  through it when the vector is empty; the model logs the access and goes on, as the
  compiled code does.
\<close>

definition front :: "nat \<Rightarrow> unit outcome" where
  "front size_of_vector = (if size_of_vector = 0 then emit front_of_empty_vector else ret ())"

text \<open>The value of a \<^verbatim>\<open>size_t\<close> expression stored in an \<^verbatim>\<open>int\<close> (32 bits, two's complement).\<close>

definition as_int :: "int \<Rightarrow> int" where
  "as_int x = sint (word_of_int x :: 32 word)"

text \<open>\<^verbatim>\<open>memcpy\<close> or a library write of \<open>d\<close> into a buffer at an offset.\<close>

definition store :: "bytes \<Rightarrow> nat \<Rightarrow> bytes \<Rightarrow> bytes" where
  "store b off d = take off b @ d @ drop (off + length d) b"

text \<open>\<^verbatim>\<open>std::vector::resize\<close>.\<close>

definition resize :: "bytes \<Rightarrow> nat \<Rightarrow> bytes" where
  "resize v n = take n v @ replicate (n - length v) 0"

subsection \<open>Keys\<close>

text \<open>
  \<^verbatim>\<open>key.h\<close> is not among the sources. ECIES.cpp uses of a \<^verbatim>\<open>CKey\<close> only its member
  \<^verbatim>\<open>pkey\<close>, an \<^verbatim>\<open>EC_KEY*\<close> that it tests for null, and of an \<^verbatim>\<open>EC_KEY\<close> the private scalar
  (\<^verbatim>\<open>EC_KEY_get0_private_key\<close>, null when there is none) and the public point
  (\<^verbatim>\<open>EC_KEY_get0_public_key\<close>). Scalars and points are the type parameters \<open>'sk\<close>, \<open>'pk\<close>.
\<close>

datatype ('sk, 'pk) EC_KEY =
  EC_KEY (EC_KEY_get0_private_key: "'sk option") (EC_KEY_get0_public_key: "'pk option")

datatype ('sk, 'pk) CKey = CKey (pkey: "('sk, 'pk) EC_KEY option")

subsection \<open>The OpenSSL primitives\<close>

record ('sk, 'pk) openssl =
  ecdh_x :: "'pk option \<Rightarrow> 'sk \<Rightarrow> bytes option"
    \<comment> \<open>the x-coordinate of scalar times point; \<open>None\<close> when the computation fails\<close>
  SHA256 :: "bytes \<Rightarrow> bytes"
  hmac_init_ok :: "bytes \<Rightarrow> bool"
    \<comment> \<open>\<^verbatim>\<open>HMAC_Init_ex\<close> with this key returns 1\<close>
  hmac_update_ok :: "bytes \<Rightarrow> bytes \<Rightarrow> bool"
    \<comment> \<open>\<^verbatim>\<open>HMAC_Update\<close> of a context with this key on this data returns 1\<close>
  hmac_final :: "bytes \<Rightarrow> bytes \<Rightarrow> bytes option"
    \<comment> \<open>the digest \<^verbatim>\<open>HMAC_Final\<close> writes for key and data; \<open>None\<close> when it fails\<close>
  cipher_init_ok :: "bool \<Rightarrow> bytes \<Rightarrow> bytes \<Rightarrow> bool"
    \<comment> \<open>\<^verbatim>\<open>EVP_EncryptInit_ex\<close> (\<open>True\<close>) or \<^verbatim>\<open>EVP_DecryptInit_ex\<close> (\<open>False\<close>) with key and IV returns 1\<close>
  aes_encrypt :: "bytes \<Rightarrow> bytes \<Rightarrow> bytes"
    \<comment> \<open>the block cipher: key, 16-byte block\<close>
  aes_decrypt :: "bytes \<Rightarrow> bytes \<Rightarrow> bytes"

definition ret_code :: "bool \<Rightarrow> int" where
  "ret_code ok = (if ok then 1 else 0)"

subsection \<open>AES-CBC behind the EVP interface\<close>

definition xor_block :: "bytes \<Rightarrow> bytes \<Rightarrow> bytes" where
  "xor_block a b = map2 (XOR) a b"

fun aes_cbc_encrypt :: "(bytes \<Rightarrow> bytes \<Rightarrow> bytes) \<Rightarrow> bytes \<Rightarrow> bytes \<Rightarrow> bytes \<Rightarrow> bytes \<times> bytes" where
  "aes_cbc_encrypt E k ivec inp =
     (if length inp < 16 then ([], ivec)
      else let c = E k (xor_block (take 16 inp) ivec);
               (out, ivec') = aes_cbc_encrypt E k c (drop 16 inp)
           in (c @ out, ivec'))"

fun aes_cbc_decrypt :: "(bytes \<Rightarrow> bytes \<Rightarrow> bytes) \<Rightarrow> bytes \<Rightarrow> bytes \<Rightarrow> bytes \<Rightarrow> bytes \<times> bytes" where
  "aes_cbc_decrypt D k ivec inp =
     (if length inp < 16 then ([], ivec)
      else let c = take 16 inp;
               p = xor_block (D k c) ivec;
               (out, ivec') = aes_cbc_decrypt D k c (drop 16 inp)
           in (p @ out, ivec'))"

declare aes_cbc_encrypt.simps [simp del]
declare aes_cbc_decrypt.simps [simp del]

record EVP_CIPHER_CTX =
  ctx_encrypt :: bool
  ctx_key :: bytes
  ctx_iv :: bytes
  ctx_buf :: bytes
  ctx_final :: bytes
  ctx_final_used :: bool

definition EVP_CipherInit :: "bool \<Rightarrow> bytes \<Rightarrow> bytes \<Rightarrow> EVP_CIPHER_CTX" where
  "EVP_CipherInit enc k ivec =
     \<lparr>ctx_encrypt = enc, ctx_key = k, ctx_iv = ivec, ctx_buf = [], ctx_final = [],
      ctx_final_used = False\<rparr>"

text \<open>The cipher's \<^verbatim>\<open>do_cipher\<close> on whole blocks: returns the context and the bytes written.\<close>

definition M_do_cipher :: "('sk, 'pk) openssl \<Rightarrow> EVP_CIPHER_CTX \<Rightarrow> bytes \<Rightarrow> EVP_CIPHER_CTX \<times> bytes" where
  "M_do_cipher P ctx inp =
     (let (out, ivec') =
            (if ctx_encrypt ctx then aes_cbc_encrypt (aes_encrypt P) (ctx_key ctx) (ctx_iv ctx) inp
             else aes_cbc_decrypt (aes_decrypt P) (ctx_key ctx) (ctx_iv ctx) inp)
      in (ctx\<lparr>ctx_iv := ivec'\<rparr>, out))"

text \<open>
  \<^verbatim>\<open>EVP_EncryptUpdate(ctx, out, &outl, in, inl)\<close>: the new context, the bytes written at
  \<^verbatim>\<open>out\<close> (\<^verbatim>\<open>*outl\<close> is their number) and the return value. The caller passes the bytes
  readable at \<^verbatim>\<open>in\<close>, of which \<open>inl\<close> are consumed.
\<close>

definition EVP_EncryptUpdate ::
  "('sk, 'pk) openssl \<Rightarrow> EVP_CIPHER_CTX \<Rightarrow> bytes \<Rightarrow> int \<Rightarrow> EVP_CIPHER_CTX \<times> bytes \<times> int" where
  "EVP_EncryptUpdate P ctx in_bytes inl =
     (if inl \<le> 0 then (ctx, [], ret_code (inl = 0))
      else
        let inp = take (nat inl) in_bytes in
        if ctx_buf ctx = [] \<and> length inp mod 16 = 0 then
          (let (ctx', out) = M_do_cipher P ctx inp in (ctx', out, 1))
        else if ctx_buf ctx \<noteq> [] \<and> length (ctx_buf ctx) + length inp < 16 then
          (ctx\<lparr>ctx_buf := ctx_buf ctx @ inp\<rparr>, [], 1)
        else
          let j = (if ctx_buf ctx \<noteq> [] then 16 - length (ctx_buf ctx) else 0);
              (ctx1, out1) = (if ctx_buf ctx \<noteq> [] then M_do_cipher P ctx (ctx_buf ctx @ take j inp)
                              else (ctx, []));
              inp1 = drop j inp;
              i = length inp1 mod 16;
              whole = take (length inp1 - i) inp1;
              (ctx2, out2) = (if whole \<noteq> [] then M_do_cipher P ctx1 whole else (ctx1, []))
          in (ctx2\<lparr>ctx_buf := drop (length inp1 - i) inp1\<rparr>, out1 @ out2, 1))"

text \<open>\<^verbatim>\<open>EVP_EncryptFinal_ex\<close>: pads the buffered bytes to a whole block and encrypts it.\<close>

definition EVP_EncryptFinal_ex ::
  "('sk, 'pk) openssl \<Rightarrow> EVP_CIPHER_CTX \<Rightarrow> EVP_CIPHER_CTX \<times> bytes \<times> int" where
  "EVP_EncryptFinal_ex P ctx =
     (let n = 16 - length (ctx_buf ctx);
          (ctx', out) = M_do_cipher P ctx (ctx_buf ctx @ replicate n (of_nat n))
      in (ctx', out, 1))"

text \<open>
  \<^verbatim>\<open>EVP_DecryptUpdate\<close>: as the update above on a decrypting context, except that a last
  whole block is held back in \<^verbatim>\<open>ctx->final\<close> until more input or the finalisation comes.
  Returns the context, the bytes written at \<^verbatim>\<open>out\<close>, \<^verbatim>\<open>*outl\<close> (which does not count a
  block written and held back) and the return value.
\<close>

definition EVP_DecryptUpdate ::
  "('sk, 'pk) openssl \<Rightarrow> EVP_CIPHER_CTX \<Rightarrow> bytes \<Rightarrow> int \<Rightarrow> EVP_CIPHER_CTX \<times> bytes \<times> int \<times> int" where
  "EVP_DecryptUpdate P ctx in_bytes inl =
     (if inl \<le> 0 then (ctx, [], 0, ret_code (inl = 0))
      else
        let pre = (if ctx_final_used ctx then ctx_final ctx else []);
            (ctx1, out, r) = EVP_EncryptUpdate P ctx in_bytes inl
        in if r = 0 then (ctx1, pre @ out, 0, 0)
           else if ctx_buf ctx1 = [] then
             (ctx1\<lparr>ctx_final_used := True, ctx_final := drop (length out - 16) out\<rparr>,
              pre @ out, int (length pre + length out) - 16, 1)
           else
             (ctx1\<lparr>ctx_final_used := False\<rparr>, pre @ out, int (length pre + length out), 1))"

text \<open>
  \<^verbatim>\<open>EVP_DecryptFinal\<close>: checks and strips the padding of the block held back. Returns the
  bytes written, \<^verbatim>\<open>*outl\<close> and the return value.
\<close>

definition EVP_DecryptFinal :: "EVP_CIPHER_CTX \<Rightarrow> bytes \<times> int \<times> int" where
  "EVP_DecryptFinal ctx =
     (if ctx_buf ctx \<noteq> [] \<or> \<not> ctx_final_used ctx then ([], 0, 0)
      else
        let n = unat (ctx_final ctx ! (16 - 1)) in
        if n = 0 \<or> n > 16 then ([], 0, 0)
        else if \<not> list_all (\<lambda>x. unat x = n) (drop (16 - n) (ctx_final ctx)) then ([], 0, 0)
        else (take (16 - n) (ctx_final ctx), int (16 - n), 1))"

section \<open>The functions of ECIES.cpp\<close>

definition ecies_key_derivation :: "(bytes \<Rightarrow> bytes) \<Rightarrow> bytes \<Rightarrow> nat \<Rightarrow> error + (bytes \<times> nat)" where
  "ecies_key_derivation hash input olen =
     (if olen < ECIES_KEY_LENGTH then Inl assertion_failed
      else Inr (hash input, ECIES_KEY_LENGTH))"

text \<open>
  \<^verbatim>\<open>ECDH_compute_key(out, outlen, pub_key, ecdh, KDF)\<close>: the shared x-coordinate passed
  through the caller's KDF; returns the KDF's output length and output, or -1.
\<close>

definition ECDH_compute_key ::
  "('sk, 'pk) openssl \<Rightarrow> nat \<Rightarrow> 'pk option \<Rightarrow> 'sk \<Rightarrow> (bytes \<Rightarrow> nat \<Rightarrow> error + (bytes \<times> nat))
     \<Rightarrow> error + (int \<times> bytes)" where
  "ECDH_compute_key P outlen pub_key priv KDF =
     (case ecdh_x P pub_key priv of
        None \<Rightarrow> Inr (- 1, [])
      | Some x \<Rightarrow> (case KDF x outlen of
                     Inl e \<Rightarrow> Inl e
                   | Inr (out, olen) \<Rightarrow> Inr (int olen, out)))"

definition getECIESSecret ::
  "('sk, 'pk) openssl \<Rightarrow> ('sk, 'pk) CKey \<Rightarrow> ('sk, 'pk) CKey \<Rightarrow> bytes outcome" where
  "getECIESSecret P self otherKey =
     (case (pkey self, pkey otherKey) of
        (Some my, Some their) \<Rightarrow>
          bnd (case EC_KEY_get0_private_key my of
                 Some d \<Rightarrow> ret (d, their)
               | None \<Rightarrow> (case EC_KEY_get0_private_key their of
                            Some d \<Rightarrow> ret (d, my)
                          | None \<Rightarrow> throw (runtime_error ''no private key'')))
            (\<lambda>(privkey, pubkey).
               case ECDH_compute_key P ECIES_KEY_LENGTH (EC_KEY_get0_public_key pubkey) privkey
                      (ecies_key_derivation (SHA256 P)) of
                 Inl e \<Rightarrow> throw e
               | Inr (r, key) \<Rightarrow>
                   bnd (call API_ECDH_compute_key r) (\<lambda>_.
                   if r \<noteq> int ECIES_KEY_LENGTH then throw (runtime_error ''ecdh key failed'')
                   else ret key))
      | _ \<Rightarrow> throw (runtime_error ''missing key''))"

definition makeHMAC :: "('sk, 'pk) openssl \<Rightarrow> bytes \<Rightarrow> bytes \<Rightarrow> bytes outcome" where
  "makeHMAC P secret data =
     bnd (call API_HMAC_Init_ex (ret_code (hmac_init_ok P secret))) (\<lambda>_.
     if ret_code (hmac_init_ok P secret) \<noteq> 1 then throw (runtime_error ''init hmac'')
     else
     bnd (front (length data)) (\<lambda>_.
     bnd (call API_HMAC_Update (ret_code (hmac_update_ok P secret data))) (\<lambda>_.
     if ret_code (hmac_update_ok P secret data) \<noteq> 1 then throw (runtime_error ''update hmac'')
     else
     let ml = EVP_MAX_MD_SIZE;
         hmac = replicate ml (0 :: byte)
     in
     bnd (front (length hmac)) (\<lambda>_.
     case hmac_final P secret data of
       None \<Rightarrow> bnd (call API_HMAC_Final 0) (\<lambda>_. throw (runtime_error ''finalize hmac''))
     | Some digest \<Rightarrow>
         bnd (call API_HMAC_Final 1) (\<lambda>_.
         bnd (front (length hmac)) (\<lambda>_.
         ret (take ECIES_HMAC_SIZE (store hmac 0 digest))))))))"

text \<open>
  \<^verbatim>\<open>RAND_bytes\<close> is the one input of encryption that is not an argument in the source:
  \<open>entropy\<close> is what the random source delivers to this call, byte by index, or \<open>None\<close>
  when it has too little.
\<close>

definition encryptECIES ::
  "('sk, 'pk) openssl \<Rightarrow> (nat \<Rightarrow> byte) option \<Rightarrow> ('sk, 'pk) CKey \<Rightarrow> ('sk, 'pk) CKey \<Rightarrow> bytes
     \<Rightarrow> bytes outcome" where
  "encryptECIES P entropy self otherKey plaintext =
     bnd (getECIESSecret P self otherKey) (\<lambda>secret.
     bnd (makeHMAC P secret plaintext) (\<lambda>hmac.
     bnd (case entropy of
            None \<Rightarrow> bnd (call API_RAND_bytes 0) (\<lambda>_. throw (runtime_error ''insufficient entropy''))
          | Some rnd \<Rightarrow> bnd (call API_RAND_bytes 1) (\<lambda>_. ret (map rnd [0 ..< ECIES_ENC_BLK_SIZE])))
       (\<lambda>iv.
     bnd (call API_EVP_EncryptInit_ex (ret_code (cipher_init_ok P True secret iv))) (\<lambda>_.
     if ret_code (cipher_init_ok P True secret iv) \<noteq> 1 then throw (runtime_error ''init cipher ctx'')
     else
     let ctx = EVP_CipherInit True secret iv;
         out0 = replicate (length plaintext + ECIES_HMAC_SIZE + ECIES_ENC_KEY_SIZE + ECIES_ENC_BLK_SIZE)
                  (0 :: byte);
         capacity = length out0
     in
     bnd (front (length out0)) (\<lambda>_.
     let out1 = store out0 0 iv;
         len1 = int ECIES_ENC_BLK_SIZE
     in
     bnd (cassert (as_int (int capacity - len1) > 0)) (\<lambda>_.
     bnd (front (length out1)) (\<lambda>_.
     let (ctx1, w1, r1) = EVP_EncryptUpdate P ctx hmac (int ECIES_HMAC_SIZE) in
     bnd (call API_EVP_EncryptUpdate r1) (\<lambda>_.
     if r1 < 0 then throw (runtime_error '''')
     else
     let out2 = store out1 (nat len1) w1;
         len2 = len1 + int (length w1)
     in
     bnd (cassert (as_int (int capacity - len2) > 0)) (\<lambda>_.
     bnd (front (length out2)) (\<lambda>_.
     bnd (front (length plaintext)) (\<lambda>_.
     let (ctx2, w2, r2) = EVP_EncryptUpdate P ctx1 plaintext (as_int (int (length plaintext))) in
     bnd (call API_EVP_EncryptUpdate r2) (\<lambda>_.
     if r2 < 0 then throw (runtime_error '''')
     else
     let out3 = store out2 (nat len2) w2;
         len3 = len2 + int (length w2)
     in
     bnd (front (length out3)) (\<lambda>_.
     let (ctx3, w3, r3) = EVP_EncryptFinal_ex P ctx2 in
     bnd (call API_EVP_EncryptFinal_ex r3) (\<lambda>_.
     if r3 < 0 then throw (runtime_error '''')
     else
     let out4 = store out3 (nat len3) w3;
         len4 = len3 + int (length w3)
     in
     bnd (cassert (len4 \<le> int (length plaintext + ECIES_HMAC_SIZE + 2 * ECIES_ENC_BLK_SIZE))) (\<lambda>_.
     bnd (cassert (len4 \<ge> int (length plaintext + ECIES_HMAC_SIZE + ECIES_ENC_BLK_SIZE))) (\<lambda>_.
     ret (resize out4 (nat len4))))))))))))))))))"

definition decryptECIES ::
  "('sk, 'pk) openssl \<Rightarrow> ('sk, 'pk) CKey \<Rightarrow> ('sk, 'pk) CKey \<Rightarrow> bytes \<Rightarrow> bytes outcome" where
  "decryptECIES P self otherKey ciphertext =
     bnd (getECIESSecret P self otherKey) (\<lambda>secret.
     if length ciphertext < 2 * ECIES_ENC_BLK_SIZE + ECIES_HMAC_SIZE
     then throw (runtime_error ''ciphertext too short'')
     else
     bnd (front (length ciphertext)) (\<lambda>_.
     let iv = take ECIES_ENC_BLK_SIZE ciphertext in
     bnd (call API_EVP_DecryptInit_ex (ret_code (cipher_init_ok P False secret iv))) (\<lambda>_.
     if ret_code (cipher_init_ok P False secret iv) \<noteq> 1
     then throw (runtime_error ''unable to init cipher'')
     else
     let ctx = EVP_CipherInit False secret iv in
     bnd (front (length ciphertext)) (\<lambda>_.
     let (ctx1, hmac, outlen1, r1) =
           EVP_DecryptUpdate P ctx (drop ECIES_ENC_BLK_SIZE ciphertext) (int (ECIES_HMAC_SIZE + 1)) in
     bnd (call API_EVP_DecryptUpdate r1) (\<lambda>_.
     if r1 \<noteq> 1 \<or> outlen1 \<noteq> int ECIES_HMAC_SIZE
     then throw (runtime_error ''unable to extract hmac'')
     else
     let plaintext0 = replicate (length ciphertext - ECIES_HMAC_SIZE - ECIES_ENC_BLK_SIZE) (0 :: byte) in
     bnd (front (length plaintext0)) (\<lambda>_.
     bnd (front (length ciphertext)) (\<lambda>_.
     let (ctx2, w2, outlen2, r2) =
           EVP_DecryptUpdate P ctx1 (drop (ECIES_ENC_BLK_SIZE + ECIES_HMAC_SIZE + 1) ciphertext)
             (as_int (int (length ciphertext) - int ECIES_ENC_BLK_SIZE - int ECIES_HMAC_SIZE - 1)) in
     bnd (call API_EVP_DecryptUpdate r2) (\<lambda>_.
     if r2 \<noteq> 1 then throw (runtime_error ''unable to extract plaintext'')
     else
     let plaintext1 = store plaintext0 0 w2 in
     bnd (front (length plaintext1)) (\<lambda>_.
     let (w3, flen, r3) = EVP_DecryptFinal ctx2 in
     bnd (call API_EVP_DecryptFinal r3) (\<lambda>_.
     if r3 \<noteq> 1 then throw (runtime_error ''plaintext had bad padding'')
     else
     let plaintext2 = store plaintext1 (nat outlen2) w3;
         plaintext3 = resize plaintext2 (nat (flen + outlen2))
     in
     bnd (makeHMAC P secret plaintext3) (\<lambda>expected.
     bnd (emit (hmac_compared (hmac \<noteq> expected))) (\<lambda>_.
     if hmac \<noteq> expected then throw (runtime_error ''plaintext had bad hmac'')
     else ret plaintext3))))))))))))"

section \<open>Notions used in the statements\<close>

text \<open>A key holds a private scalar.\<close>

definition holds_private :: "('sk, 'pk) CKey \<Rightarrow> bool" where
  "holds_private k =
     (case pkey k of None \<Rightarrow> False | Some ec \<Rightarrow> EC_KEY_get0_private_key ec \<noteq> None)"

text \<open>
  Key generation is outside ECIES.cpp. \<open>G d\<close> stands for the public point of the scalar
  \<open>d\<close> (\<open>d\<close> times the generator of the curve). A key is valid when it has an
  \<^verbatim>\<open>EC_KEY\<close> whose public point, if the key holds a scalar, is the point of that scalar.
\<close>

definition valid_key :: "('sk \<Rightarrow> 'pk) \<Rightarrow> ('sk, 'pk) CKey \<Rightarrow> bool" where
  "valid_key G k =
     (case pkey k of
        None \<Rightarrow> False
      | Some ec \<Rightarrow> (case EC_KEY_get0_private_key ec of
                      None \<Rightarrow> True
                    | Some d \<Rightarrow> EC_KEY_get0_public_key ec = Some (G d)))"

text \<open>The Diffie-Hellman property of the curve: \<open>a\<close> times \<open>G b\<close> is \<open>b\<close> times \<open>G a\<close>.\<close>

definition dh_symmetric :: "('sk, 'pk) openssl \<Rightarrow> ('sk \<Rightarrow> 'pk) \<Rightarrow> bool" where
  "dh_symmetric P G = (\<forall>a b. ecdh_x P (Some (G b)) a = ecdh_x P (Some (G a)) b)"

text \<open>The block cipher maps blocks to blocks, and decryption undoes encryption.\<close>

definition block_cipher :: "('sk, 'pk) openssl \<Rightarrow> bool" where
  "block_cipher P =
     (\<forall>k b. length b = 16 \<longrightarrow>
        length (aes_encrypt P k b) = 16 \<and> aes_decrypt P k (aes_encrypt P k b) = b)"

text \<open>
  The wire format, after the comment that heads the encryption code: the IV in clear, then
  the CBC encryption, under the shared secret and that IV, of the MAC, the plaintext and the
  padding (between 1 and 16 bytes, each holding their number).
\<close>

definition pkcs_padding :: "nat \<Rightarrow> bytes" where
  "pkcs_padding n = replicate (16 - n mod 16) (of_nat (16 - n mod 16))"

definition envelope :: "('sk, 'pk) openssl \<Rightarrow> bytes \<Rightarrow> bytes \<Rightarrow> bytes \<Rightarrow> bytes \<Rightarrow> bytes" where
  "envelope P secret ivec mac plaintext =
     ivec @ fst (aes_cbc_encrypt (aes_encrypt P) secret ivec
                   (mac @ plaintext @ pkcs_padding (length plaintext)))"

text \<open>Two abbreviations for the proofs: CBC in either direction, and a log put in front.\<close>

definition cbc_run :: "('sk, 'pk) openssl \<Rightarrow> bool \<Rightarrow> bytes \<Rightarrow> bytes \<Rightarrow> bytes \<Rightarrow> bytes \<times> bytes" where
  "cbc_run P enc k ivec inp =
     (if enc then aes_cbc_encrypt (aes_encrypt P) k ivec inp
      else aes_cbc_decrypt (aes_decrypt P) k ivec inp)"

definition logged :: "event list \<Rightarrow> 'a outcome \<Rightarrow> 'a outcome" where
  "logged l m = (l @ fst m, snd m)"

text \<open>A run that takes no \<^verbatim>\<open>front()\<close> of an empty vector.\<close>

definition no_ub :: "'a outcome \<Rightarrow> bool" where
  "no_ub m = (front_of_empty_vector \<notin> set (fst m))"

subsection \<open>A small instance of the primitives, to run the model on\<close>

text \<open>
  Scalars and points are numbers modulo 251 with the generator 7; the hash pads with 7s, the
  MAC repeats the sum of key and data bytes, the block cipher adds 1 to every byte. None of
  this is secure; it gives the hypotheses of the theorems something to hold of.
\<close>

definition toy_G :: "nat \<Rightarrow> nat" where
  "toy_G d = 7 * d mod 251"

definition toy :: "(nat, nat) openssl" where
  "toy = \<lparr>ecdh_x = (\<lambda>pub d. case pub of None \<Rightarrow> None | Some q \<Rightarrow> Some [of_nat (q * d mod 251)]),
          SHA256 = (\<lambda>x. x @ replicate (32 - length x) 7),
          hmac_init_ok = (\<lambda>_. True),
          hmac_update_ok = (\<lambda>_ _. True),
          hmac_final = (\<lambda>k d. Some (replicate 32 (foldr (+) (k @ d) (of_nat (length d))))),
          cipher_init_ok = (\<lambda>_ _ _. True),
          aes_encrypt = (\<lambda>k b. map (\<lambda>x. x + 1) b),
          aes_decrypt = (\<lambda>k b. map (\<lambda>x. x - 1) b)\<rparr>"

definition toy_priv :: "nat \<Rightarrow> (nat, nat) CKey" where
  "toy_priv d = CKey (Some (EC_KEY (Some d) (Some (toy_G d))))"

definition toy_pub :: "nat \<Rightarrow> (nat, nat) CKey" where
  "toy_pub d = CKey (Some (EC_KEY None (Some (toy_G d))))"

definition toy_entropy :: "(nat \<Rightarrow> byte) option" where
  "toy_entropy = Some (\<lambda>i. of_nat (3 * i))"

section \<open>Reasoning about outcomes\<close>

lemma bnd_ret [simp]: "bnd (ret x) f = f x"
  by (simp add: bnd_def ret_def split: prod.splits)

lemma bnd_throw [simp]: "bnd (throw e) f = throw e"
  by (simp add: bnd_def throw_def)

lemma bnd_Inl [simp]: "bnd (l, Inl e) f = (l, Inl e)"
  by (simp add: bnd_def)

lemma bnd_Inr: "bnd (l, Inr x) f = (l @ fst (f x), snd (f x))"
  by (simp add: bnd_def split: prod.splits)

lemma bnd_call: "bnd (call a r) f = (Call a r # fst (f ()), snd (f ()))"
  by (simp add: call_def emit_def bnd_Inr)

lemma bnd_emit: "bnd (emit ev) f = (ev # fst (f ()), snd (f ()))"
  by (simp add: emit_def bnd_Inr)

lemma fst_ret [simp]: "fst (ret x) = []"
  by (simp add: ret_def)

lemma snd_ret [simp]: "snd (ret x) = Inr x"
  by (simp add: ret_def)

lemma fst_throw [simp]: "fst (throw e) = []"
  by (simp add: throw_def)

lemma snd_throw [simp]: "snd (throw e) = Inl e"
  by (simp add: throw_def)

lemma fst_bnd: "fst (bnd m f) = (case snd m of Inl e \<Rightarrow> fst m | Inr x \<Rightarrow> fst m @ fst (f x))"
  by (cases m) (auto simp: bnd_def split: sum.splits prod.splits)

lemma snd_bnd: "snd (bnd m f) = (case snd m of Inl e \<Rightarrow> Inl e | Inr x \<Rightarrow> snd (f x))"
  by (cases m) (auto simp: bnd_def split: sum.splits prod.splits)

lemma store_eq_Nil [simp]: "store b off d = [] \<longleftrightarrow> b = [] \<and> d = []"
  by (auto simp: store_def)

section \<open>Shared-secret derivation\<close>

lemma getECIESSecret_no_private:
  "\<not> holds_private self \<Longrightarrow> \<not> holds_private other \<Longrightarrow>
     getECIESSecret P self other = throw (runtime_error ''missing key'') \<or>
     getECIESSecret P self other = throw (runtime_error ''no private key'')"
  by (auto simp: getECIESSecret_def holds_private_def split: option.splits)

lemma getECIESSecret_sym:
  assumes "dh_symmetric P G" "valid_key G A" "valid_key G B"
  shows "getECIESSecret P A B = getECIESSecret P B A"
proof -
  from assms(1) have sym: "\<And>a b. ecdh_x P (Some (G b)) a = ecdh_x P (Some (G a)) b"
    by (simp add: dh_symmetric_def)
  show ?thesis
    using assms(2,3) sym
    by (auto simp: getECIESSecret_def valid_key_def ECDH_compute_key_def split: option.splits)
qed

lemma getECIESSecret_trace:
  "fst (getECIESSecret P self other) = [] \<or>
   (\<exists>r. fst (getECIESSecret P self other) = [Call API_ECDH_compute_key r])"
  by (auto simp: getECIESSecret_def ECDH_compute_key_def ecies_key_derivation_def bnd_call
           split: option.splits sum.splits prod.splits)

lemma getECIESSecret_ok_trace:
  "getECIESSecret P self other = (l, Inr s) \<Longrightarrow> l = [Call API_ECDH_compute_key 32]"
  by (auto simp: getECIESSecret_def ECDH_compute_key_def ecies_key_derivation_def ret_def throw_def
                 bnd_call bnd_Inr
           split: option.splits sum.splits prod.splits if_splits)

lemma getECIESSecret_err_trace:
  "getECIESSecret P self other = (l, Inl e) \<Longrightarrow> l = [] \<or> (\<exists>r. l = [Call API_ECDH_compute_key r])"
  using getECIESSecret_trace [of P self other] by auto

lemma toy_dh: "dh_symmetric toy toy_G"
proof -
  have "(7 * b mod 251) * a mod 251 = (7 * a mod 251) * b mod 251" for a b :: nat
  proof -
    have "(7 * b mod 251) * a mod 251 = (7 * b * a) mod 251"
      by (simp add: mod_mult_left_eq)
    also have "\<dots> = (7 * a * b) mod 251"
      by (simp add: mult.assoc mult.left_commute mult.commute)
    also have "\<dots> = (7 * a mod 251) * b mod 251"
      by (simp add: mod_mult_left_eq)
    finally show ?thesis .
  qed
  then show ?thesis
    by (simp add: dh_symmetric_def toy_def toy_G_def)
qed

lemma toy_keys:
  "valid_key toy_G (toy_priv d)" "valid_key toy_G (toy_pub d)"
  "holds_private (toy_priv d)" "\<not> holds_private (toy_pub d)"
  by (simp_all add: valid_key_def toy_priv_def toy_pub_def holds_private_def)

text \<open>
  C7. Deriving the secret is symmetric in the two keys: for valid keys on a curve with the
  Diffie-Hellman property, \<open>getECIESSecret\<close> of \<open>A\<close> with \<open>B\<close> and of \<open>B\<close> with \<open>A\<close>
  give the same outcome, the same secret when one side at least holds a private scalar
  and the key agreement succeeds. When both hold one, the first call multiplies \<open>A\<close>'s scalar
  with \<open>B\<close>'s point and the second \<open>B\<close>'s scalar with \<open>A\<close>'s point; when one does, both calls
  use that scalar. The secret is the SHA-256 digest of the shared x-coordinate.
\<close>

theorem getECIESSecret_symmetric:
  assumes "dh_symmetric P G" and "valid_key G A" and "valid_key G B"
    and "holds_private A \<or> holds_private B"
  shows "getECIESSecret P A B = getECIESSecret P B A"
  using assms(1-3) by (rule getECIESSecret_sym)

theorem getECIESSecret_symmetric_witness:
  "dh_symmetric toy toy_G \<and> valid_key toy_G (toy_priv 3) \<and> valid_key toy_G (toy_priv 5) \<and>
   (holds_private (toy_priv 3) \<or> holds_private (toy_priv 5)) \<and>
   getECIESSecret toy (toy_priv 3) (toy_priv 5) = getECIESSecret toy (toy_priv 5) (toy_priv 3) \<and>
   snd (getECIESSecret toy (toy_priv 3) (toy_priv 5)) = Inr (105 # replicate 31 7)"
proof -
  have k: "holds_private (toy_priv 3) \<or> holds_private (toy_priv 5)"
    by (simp add: toy_keys)
  have v: "snd (getECIESSecret toy (toy_priv 3) (toy_priv 5)) = Inr (105 # replicate 31 7)"
    by code_simp
  show ?thesis
    using getECIESSecret_symmetric [of toy toy_G "toy_priv 3" "toy_priv 5"] k v
    by (simp add: toy_dh toy_keys)
qed

text \<open>
  C8. When neither key holds a private scalar, secret derivation fails with the message
  \<^verbatim>\<open>missing key\<close> (a key without an \<^verbatim>\<open>EC_KEY\<close>) or \<^verbatim>\<open>no private key\<close>, the two messages of
  the missing-key error; so do encryption and decryption, whatever the plaintext or the
  ciphertext. The log is empty: no primitive has run and no secret exists.
\<close>

theorem missing_key_rejection:
  assumes "\<not> holds_private self" and "\<not> holds_private other"
  shows "\<exists>msg. (msg = ''missing key'' \<or> msg = ''no private key'') \<and>
           getECIESSecret P self other = ([], Inl (runtime_error msg)) \<and>
           encryptECIES P entropy self other plaintext = ([], Inl (runtime_error msg)) \<and>
           decryptECIES P self other ciphertext = ([], Inl (runtime_error msg))"
  using getECIESSecret_no_private [OF assms, of P]
  by (auto simp: encryptECIES_def decryptECIES_def throw_def)

theorem missing_key_rejection_witness:
  "\<not> holds_private (toy_pub 3) \<and> \<not> holds_private (toy_pub 5) \<and>
   getECIESSecret toy (toy_pub 3) (toy_pub 5) = ([], Inl (runtime_error ''no private key'')) \<and>
   encryptECIES toy toy_entropy (toy_pub 3) (toy_pub 5) [1, 2, 3] =
     ([], Inl (runtime_error ''no private key'')) \<and>
   decryptECIES toy (toy_pub 3) (toy_pub 5) (replicate 64 0) =
     ([], Inl (runtime_error ''no private key''))"
proof -
  have g: "getECIESSecret toy (toy_pub 3) (toy_pub 5) \<noteq> ([], Inl (runtime_error ''missing key''))"
    by code_simp
  show ?thesis
    using missing_key_rejection [of "toy_pub 3" "toy_pub 5" toy toy_entropy "[1, 2, 3]"
        "replicate 64 0"] g
    by (auto simp: toy_keys)
qed

section \<open>Decryption: the order of the checks\<close>

lemma makeHMAC_trace:
  "ev \<in> set (fst (makeHMAC P s d)) \<Longrightarrow>
     ev = front_of_empty_vector \<or>
     (\<exists>r. ev = Call API_HMAC_Init_ex r \<or> ev = Call API_HMAC_Update r \<or> ev = Call API_HMAC_Final r)"
  by (auto simp: makeHMAC_def front_def Let_def bnd_call bnd_emit split: if_splits option.splits)

text \<open>
  Every run of \<open>decryptECIES\<close> is of one of three kinds: it fails before the padding is
  looked at; it fails at the padding, which is then the last thing logged; or the padding
  was accepted, and whatever follows comes after that.
\<close>

lemma decrypt_shape:
  "decryptECIES P self other ct = (l, res) \<Longrightarrow>
     (\<exists>e. res = Inl e \<and> res \<noteq> Inl (runtime_error ''plaintext had bad padding'') \<and>
          (\<forall>r. Call API_EVP_DecryptFinal r \<notin> set l) \<and> (\<forall>b. hmac_compared b \<notin> set l))
   \<or> (\<exists>r. r \<noteq> 1 \<and> res = Inl (runtime_error ''plaintext had bad padding'') \<and>
         l = [Call API_ECDH_compute_key 32, Call API_EVP_DecryptInit_ex 1,
              Call API_EVP_DecryptUpdate 1, Call API_EVP_DecryptUpdate 1,
              Call API_EVP_DecryptFinal r])
   \<or> (\<exists>l'. l = [Call API_ECDH_compute_key 32, Call API_EVP_DecryptInit_ex 1,
                Call API_EVP_DecryptUpdate 1, Call API_EVP_DecryptUpdate 1,
                Call API_EVP_DecryptFinal 1] @ l' \<and>
            (\<forall>r. Call API_EVP_DecryptFinal r \<notin> set l'))"
  apply (cases "getECIESSecret P self other")
  subgoal for l0 r0
    apply (cases r0)
    subgoal for e
      using getECIESSecret_err_trace [of P self other l0 e]
      apply (simp add: decryptECIES_def)
      apply (auto simp: getECIESSecret_def ret_def throw_def ECDH_compute_key_def
                        ecies_key_derivation_def bnd_call bnd_Inr
                  split: option.splits sum.splits prod.splits if_splits)
      done
    subgoal for secret
      using getECIESSecret_ok_trace [of P self other l0 secret]
      apply (simp add: decryptECIES_def front_def Let_def ret_code_def bnd_Inr bnd_call bnd_emit
                  split: if_splits prod.splits)
      apply (auto simp: ret_code_def fst_bnd snd_bnd bnd_Inr bnd_call bnd_emit
                  split: if_splits sum.splits dest!: makeHMAC_trace)
      done
    done
  done

text \<open>
  C3, as the code has it. A ciphertext shorter than 64 bytes (two blocks and a MAC) is
  rejected with \<^verbatim>\<open>ciphertext too short\<close> once the shared secret has been derived: the key
  agreement runs first, its failure is reported first, and it is the only primitive in the
  log; no cipher and no MAC call is made.
\<close>

theorem short_ciphertext_rejected:
  assumes "length ciphertext < 2 * ECIES_ENC_BLK_SIZE + ECIES_HMAC_SIZE"
  shows "decryptECIES P self other ciphertext =
           (case getECIESSecret P self other of
              (l, Inl e) \<Rightarrow> (l, Inl e)
            | (l, Inr secret) \<Rightarrow>
                ([Call API_ECDH_compute_key 32], Inl (runtime_error ''ciphertext too short'')))"
  using assms getECIESSecret_ok_trace [of P self other]
  by (cases "getECIESSecret P self other") (auto simp: decryptECIES_def bnd_Inr split: sum.splits)

theorem short_ciphertext_rejected_witness:
  "length (replicate 63 (0 :: byte)) < 2 * ECIES_ENC_BLK_SIZE + ECIES_HMAC_SIZE \<and>
   decryptECIES toy (toy_priv 5) (toy_pub 3) (replicate 63 0) =
     ([Call API_ECDH_compute_key 32], Inl (runtime_error ''ciphertext too short''))"
proof -
  have h: "length (replicate 63 (0 :: byte)) < 2 * ECIES_ENC_BLK_SIZE + ECIES_HMAC_SIZE"
    by simp
  have g: "getECIESSecret toy (toy_priv 5) (toy_pub 3) =
             ([Call API_ECDH_compute_key 32], Inr (105 # replicate 31 7))"
    by code_simp
  show ?thesis
    using short_ciphertext_rejected [OF h, of toy "toy_priv 5" "toy_pub 3"] h
    by (simp add: g)
qed

text \<open>
  The claim as the specification states it fails: on the empty ciphertext the key agreement
  has run before the rejection, and with two public keys the rejection is not the
  short-ciphertext one.
\<close>

theorem short_ciphertext_counterexample:
  "fst (decryptECIES toy (toy_priv 5) (toy_pub 3) []) = [Call API_ECDH_compute_key 32] \<and>
   snd (decryptECIES toy (toy_pub 5) (toy_pub 3) []) = Inl (runtime_error ''no private key'')"
  by code_simp

text \<open>
  C6. The padding is checked before the MACs are compared. Whenever \<^verbatim>\<open>EVP_DecryptFinal\<close>
  reports bad padding (a return value other than 1), decryption fails with
  \<^verbatim>\<open>plaintext had bad padding\<close> and that call is the last entry of the log: no MAC is
  computed and none compared. Whenever a comparison of MACs is in the log, the successful
  padding check comes before it.
\<close>

theorem padding_checked_before_hmac:
  "(Call API_EVP_DecryptFinal r \<in> set (fst (decryptECIES P self other ct)) \<and> r \<noteq> 1 \<longrightarrow>
      decryptECIES P self other ct =
        ([Call API_ECDH_compute_key 32, Call API_EVP_DecryptInit_ex 1, Call API_EVP_DecryptUpdate 1,
          Call API_EVP_DecryptUpdate 1, Call API_EVP_DecryptFinal r],
         Inl (runtime_error ''plaintext had bad padding''))) \<and>
   (hmac_compared b \<in> set (fst (decryptECIES P self other ct)) \<longrightarrow>
      (\<exists>l'. fst (decryptECIES P self other ct) =
         [Call API_ECDH_compute_key 32, Call API_EVP_DecryptInit_ex 1, Call API_EVP_DecryptUpdate 1,
          Call API_EVP_DecryptUpdate 1, Call API_EVP_DecryptFinal 1] @ l'))"
  using decrypt_shape [of P self other ct "fst (decryptECIES P self other ct)"
      "snd (decryptECIES P self other ct)"]
  by (cases "decryptECIES P self other ct") auto

theorem padding_checked_before_hmac_witness:
  "Call API_EVP_DecryptFinal 0 \<in> set (fst (decryptECIES toy (toy_priv 5) (toy_pub 3) (replicate 64 0))) \<and>
   snd (decryptECIES toy (toy_priv 5) (toy_pub 3) (replicate 64 0)) =
     Inl (runtime_error ''plaintext had bad padding'') \<and>
   hmac_compared True \<in> set (fst (decryptECIES toy (toy_priv 5) (toy_pub 3) (replicate 64 2))) \<and>
   take 5 (fst (decryptECIES toy (toy_priv 5) (toy_pub 3) (replicate 64 2))) =
     [Call API_ECDH_compute_key 32, Call API_EVP_DecryptInit_ex 1, Call API_EVP_DecryptUpdate 1,
      Call API_EVP_DecryptUpdate 1, Call API_EVP_DecryptFinal 1]"
proof -
  have a: "Call API_EVP_DecryptFinal 0 \<in>
             set (fst (decryptECIES toy (toy_priv 5) (toy_pub 3) (replicate 64 0)))"
    by code_simp
  have b: "hmac_compared True \<in>
             set (fst (decryptECIES toy (toy_priv 5) (toy_pub 3) (replicate 64 2)))"
    by code_simp
  from padding_checked_before_hmac [of 0 toy "toy_priv 5" "toy_pub 3" "replicate 64 0" True] a
  have c: "snd (decryptECIES toy (toy_priv 5) (toy_pub 3) (replicate 64 0)) =
             Inl (runtime_error ''plaintext had bad padding'')"
    by simp
  from padding_checked_before_hmac [of 0 toy "toy_priv 5" "toy_pub 3" "replicate 64 2" True] b
  obtain l' where "fst (decryptECIES toy (toy_priv 5) (toy_pub 3) (replicate 64 2)) =
         [Call API_ECDH_compute_key 32, Call API_EVP_DecryptInit_ex 1, Call API_EVP_DecryptUpdate 1,
          Call API_EVP_DecryptUpdate 1, Call API_EVP_DecryptFinal 1] @ l'"
    by blast
  then have d: "take 5 (fst (decryptECIES toy (toy_priv 5) (toy_pub 3) (replicate 64 2))) =
     [Call API_ECDH_compute_key 32, Call API_EVP_DecryptInit_ex 1, Call API_EVP_DecryptUpdate 1,
      Call API_EVP_DecryptUpdate 1, Call API_EVP_DecryptFinal 1]"
    by simp
  show ?thesis
    using a b c d by simp
qed

section \<open>Integers and buffers\<close>

lemma as_int_id: "- 2147483648 \<le> x \<Longrightarrow> x < 2147483648 \<Longrightarrow> as_int x = x"
  unfolding as_int_def by (simp add: sint_sbintrunc' signed_take_bit_int_eq_self)

lemma as_int_less: "as_int x < 2147483648"
  unfolding as_int_def using sint_lt [of "word_of_int x :: 32 word"] by simp

lemma as_int_wrap:
  assumes "2147483648 \<le> x" and "x < 4294967296"
  shows "as_int x = x - 4294967296"
proof -
  define y where "y = x - 4294967296"
  have "take_bit 32 x = take_bit 32 y"
    unfolding y_def take_bit_eq_mod by (simp add: mod_diff_right_eq [symmetric, of x 4294967296 4294967296])
  then have "(word_of_int x :: 32 word) = word_of_int y"
    by (simp add: word_of_int_eq_iff)
  then have "as_int x = as_int y"
    unfolding as_int_def by (rule arg_cong)
  also have "\<dots> = y"
    using assms by (intro as_int_id) (simp_all add: y_def)
  finally show ?thesis
    by (simp add: y_def)
qed

lemma unat_small: "n \<le> 16 \<Longrightarrow> unat (of_nat n :: 8 word) = n"
  by (simp add: unsigned_of_nat take_bit_nat_eq_self)

lemma store_prefix:
  "take off b = p \<Longrightarrow> length p = off \<Longrightarrow> take (off + length d) (store b off d) = p @ d"
  by (auto simp: store_def)

lemma resize_prefix: "take n v = p \<Longrightarrow> length p = n \<Longrightarrow> resize v n = p"
  by (auto simp: resize_def min_def split: if_splits)

lemma take_take_le: "take n v = p \<Longrightarrow> m \<le> n \<Longrightarrow> take m v = take m p"
  by (auto simp: min_def)


section \<open>CBC\<close>

lemma length_xor_block [simp]: "length (xor_block a b) = min (length a) (length b)"
  by (simp add: xor_block_def)

lemma xor_block_cancel: "length a = length b \<Longrightarrow> xor_block (xor_block a b) b = a"
  unfolding xor_block_def
proof (induction a arbitrary: b)
  case Nil
  then show ?case by simp
next
  case (Cons x xs)
  then obtain y ys where b: "b = y # ys" by (cases b) auto
  with Cons show ?case by (simp add: xor.assoc)
qed

lemma cbc_encrypt_short [simp]: "length inp < 16 \<Longrightarrow> aes_cbc_encrypt E k ivec inp = ([], ivec)"
  by (simp add: aes_cbc_encrypt.simps)

lemma cbc_decrypt_short [simp]: "length inp < 16 \<Longrightarrow> aes_cbc_decrypt D k ivec inp = ([], ivec)"
  by (simp add: aes_cbc_decrypt.simps)

lemma cbc_encrypt_step:
  "16 \<le> length inp \<Longrightarrow>
     aes_cbc_encrypt E k ivec inp =
       (E k (xor_block (take 16 inp) ivec) @ fst (aes_cbc_encrypt E k (E k (xor_block (take 16 inp) ivec)) (drop 16 inp)),
        snd (aes_cbc_encrypt E k (E k (xor_block (take 16 inp) ivec)) (drop 16 inp)))"
  by (subst aes_cbc_encrypt.simps) (simp add: Let_def split: prod.splits)

lemma cbc_decrypt_step:
  "16 \<le> length inp \<Longrightarrow>
     aes_cbc_decrypt D k ivec inp =
       (xor_block (D k (take 16 inp)) ivec @ fst (aes_cbc_decrypt D k (take 16 inp) (drop 16 inp)),
        snd (aes_cbc_decrypt D k (take 16 inp) (drop 16 inp)))"
  by (subst aes_cbc_decrypt.simps) (simp add: Let_def split: prod.splits)

lemma cbc_encrypt_append:
  "length a mod 16 = 0 \<Longrightarrow>
     aes_cbc_encrypt E k ivec (a @ b) =
       (fst (aes_cbc_encrypt E k ivec a) @ fst (aes_cbc_encrypt E k (snd (aes_cbc_encrypt E k ivec a)) b),
        snd (aes_cbc_encrypt E k (snd (aes_cbc_encrypt E k ivec a)) b))"
proof (induction E k ivec a rule: aes_cbc_encrypt.induct)
  case (1 E k ivec inp)
  show ?case
  proof (cases "length inp < 16")
    case True
    with 1(2) have "inp = []" by simp
    then show ?thesis by simp
  next
    case False
    then have len: "16 \<le> length inp" by simp
    have "(length inp - 16) mod 16 = 0"
      using 1(2) len by presburger
    then have m: "length (drop 16 inp) mod 16 = 0"
      by simp
    have t: "take 16 (inp @ b) = take 16 inp" "drop 16 (inp @ b) = drop 16 inp @ b"
      using len by simp_all
    note IH = 1(1) [OF False refl m]
    show ?thesis
      using len by (simp add: cbc_encrypt_step [of "inp @ b"] cbc_encrypt_step [of inp] t IH)
  qed
qed

lemma cbc_decrypt_append:
  "length a mod 16 = 0 \<Longrightarrow>
     aes_cbc_decrypt D k ivec (a @ b) =
       (fst (aes_cbc_decrypt D k ivec a) @ fst (aes_cbc_decrypt D k (snd (aes_cbc_decrypt D k ivec a)) b),
        snd (aes_cbc_decrypt D k (snd (aes_cbc_decrypt D k ivec a)) b))"
proof (induction D k ivec a rule: aes_cbc_decrypt.induct)
  case (1 D k ivec inp)
  show ?case
  proof (cases "length inp < 16")
    case True
    with 1(2) have "inp = []" by simp
    then show ?thesis by simp
  next
    case False
    then have len: "16 \<le> length inp" by simp
    have "(length inp - 16) mod 16 = 0"
      using 1(2) len by presburger
    then have m: "length (drop 16 inp) mod 16 = 0"
      by simp
    have t: "take 16 (inp @ b) = take 16 inp" "drop 16 (inp @ b) = drop 16 inp @ b"
      using len by simp_all
    note IH = 1(1) [OF False refl refl m]
    show ?thesis
      using len by (simp add: cbc_decrypt_step [of "inp @ b"] cbc_decrypt_step [of inp] t IH)
  qed
qed

lemma cbc_encrypt_length:
  "(\<forall>k b. length b = 16 \<longrightarrow> length (E k b) = 16) \<Longrightarrow> length ivec = 16 \<Longrightarrow>
     length (fst (aes_cbc_encrypt E k ivec inp)) = length inp - length inp mod 16 \<and>
     length (snd (aes_cbc_encrypt E k ivec inp)) = 16"
proof (induction E k ivec inp rule: aes_cbc_encrypt.induct)
  case (1 E k ivec inp)
  show ?case
  proof (cases "length inp < 16")
    case True
    with 1(3) show ?thesis by simp
  next
    case False
    then have len: "16 \<le> length inp" by simp
    define c where "c = E k (xor_block (take 16 inp) ivec)"
    have lc: "length c = 16"
      using 1(2,3) len by (simp add: c_def)
    have IH: "length (fst (aes_cbc_encrypt E k c (drop 16 inp))) =
                length (drop 16 inp) - length (drop 16 inp) mod 16 \<and>
              length (snd (aes_cbc_encrypt E k c (drop 16 inp))) = 16"
      using 1(1) [OF False c_def 1(2) lc] .
    have e: "(length inp - 16) mod 16 = length inp mod 16"
      using len by (simp add: le_mod_geq)
    have "(length inp - 16) mod 16 \<le> length inp - 16"
      by (rule mod_less_eq_dividend)
    with e have f: "length inp mod 16 \<le> length inp - 16"
      by simp
    have st: "aes_cbc_encrypt E k ivec inp =
       (c @ fst (aes_cbc_encrypt E k c (drop 16 inp)), snd (aes_cbc_encrypt E k c (drop 16 inp)))"
      using len by (simp add: cbc_encrypt_step [of inp] c_def)
    show ?thesis
      using len IH lc e f by (simp add: st)
  qed
qed

lemma cbc_decrypt_encrypt:
  "(\<forall>k b. length b = 16 \<longrightarrow> length (E k b) = 16 \<and> D k (E k b) = b) \<Longrightarrow> length ivec = 16 \<Longrightarrow>
     length inp mod 16 = 0 \<Longrightarrow>
     aes_cbc_decrypt D k ivec (fst (aes_cbc_encrypt E k ivec inp)) =
       (inp, snd (aes_cbc_encrypt E k ivec inp))"
proof (induction E k ivec inp rule: aes_cbc_encrypt.induct)
  case (1 E k ivec inp)
  show ?case
  proof (cases "length inp < 16")
    case True
    with 1(4) have "inp = []" by simp
    then show ?thesis by simp
  next
    case False
    then have len: "16 \<le> length inp" by simp
    define x where "x = xor_block (take 16 inp) ivec"
    define c where "c = E k x"
    have lx: "length x = 16"
      using 1(3) len by (simp add: x_def)
    have lc: "length c = 16" and dc: "D k c = x"
      using 1(2) lx by (simp_all add: c_def)
    have "(length inp - 16) mod 16 = 0"
      using 1(4) len by presburger
    then have m: "length (drop 16 inp) mod 16 = 0"
      by simp
    have IH: "aes_cbc_decrypt D k c (fst (aes_cbc_encrypt E k c (drop 16 inp))) =
                (drop 16 inp, snd (aes_cbc_encrypt E k c (drop 16 inp)))"
      using 1(1) [OF False c_def [unfolded x_def] 1(2) lc m] .
    have xb: "xor_block x ivec = take 16 inp"
      unfolding x_def using 1(3) len by (intro xor_block_cancel) simp
    let ?rest = "fst (aes_cbc_encrypt E k c (drop 16 inp))"
    have enc: "aes_cbc_encrypt E k ivec inp = (c @ ?rest, snd (aes_cbc_encrypt E k c (drop 16 inp)))"
      using len by (simp add: cbc_encrypt_step [of inp] c_def x_def)
    have "aes_cbc_decrypt D k ivec (c @ ?rest) =
            (xor_block (D k c) ivec @ fst (aes_cbc_decrypt D k c ?rest),
             snd (aes_cbc_decrypt D k c ?rest))"
      using lc by (simp add: cbc_decrypt_step [of "c @ ?rest"])
    then show ?thesis
      by (simp add: enc IH dc xb)
  qed
qed

lemma cbc_encrypt_whole:
  "aes_cbc_encrypt E k ivec (take (length inp - length inp mod 16) inp) = aes_cbc_encrypt E k ivec inp"
proof -
  define n where "n = length inp - length inp mod 16"
  have n1: "n \<le> length inp"
    by (simp add: n_def)
  have n2: "n mod 16 = 0"
    by (simp add: n_def mod_eq_0_iff_dvd dvd_minus_mod)
  have n3: "length inp - n < 16"
    by (simp add: n_def)
  have l: "length (take n inp) mod 16 = 0"
    using n1 n2 by (simp add: min_def)
  have l2: "aes_cbc_encrypt E k iv' (drop n inp) = ([], iv')" for iv'
    using n3 by simp
  have "aes_cbc_encrypt E k ivec (take n inp @ drop n inp) = aes_cbc_encrypt E k ivec (take n inp)"
    by (subst cbc_encrypt_append [OF l]) (simp add: l2)
  then show ?thesis
    by (simp add: n_def)
qed

section \<open>The EVP streaming interface\<close>

lemma cbc_decrypt_whole:
  "aes_cbc_decrypt D k ivec (take (length inp - length inp mod 16) inp) = aes_cbc_decrypt D k ivec inp"
proof -
  define n where "n = length inp - length inp mod 16"
  have n1: "n \<le> length inp"
    by (simp add: n_def)
  have n2: "n mod 16 = 0"
    by (simp add: n_def mod_eq_0_iff_dvd dvd_minus_mod)
  have n3: "length inp - n < 16"
    by (simp add: n_def)
  have l: "length (take n inp) mod 16 = 0"
    using n1 n2 by (simp add: min_def)
  have l2: "aes_cbc_decrypt D k iv' (drop n inp) = ([], iv')" for iv'
    using n3 by simp
  have "aes_cbc_decrypt D k ivec (take n inp @ drop n inp) = aes_cbc_decrypt D k ivec (take n inp)"
    by (subst cbc_decrypt_append [OF l]) (simp add: l2)
  then show ?thesis
    by (simp add: n_def)
qed

lemma cbc_run_whole:
  "cbc_run P enc k ivec (take (length inp - length inp mod 16) inp) = cbc_run P enc k ivec inp"
  by (simp add: cbc_run_def cbc_encrypt_whole cbc_decrypt_whole)

lemma cbc_run_short [simp]: "length inp < 16 \<Longrightarrow> cbc_run P enc k ivec inp = ([], ivec)"
  by (simp add: cbc_run_def)

lemma cbc_run_append:
  "length a mod 16 = 0 \<Longrightarrow>
     cbc_run P enc k ivec (a @ b) =
       (fst (cbc_run P enc k ivec a) @ fst (cbc_run P enc k (snd (cbc_run P enc k ivec a)) b),
        snd (cbc_run P enc k (snd (cbc_run P enc k ivec a)) b))"
  by (simp add: cbc_run_def cbc_encrypt_append cbc_decrypt_append)

lemma M_do_cipher_run:
  "M_do_cipher P \<lparr>ctx_encrypt = enc, ctx_key = k, ctx_iv = ivec, ctx_buf = b, ctx_final = f,
       ctx_final_used = u\<rparr> inp =
     (\<lparr>ctx_encrypt = enc, ctx_key = k, ctx_iv = snd (cbc_run P enc k ivec inp), ctx_buf = b,
       ctx_final = f, ctx_final_used = u\<rparr>, fst (cbc_run P enc k ivec inp))"
  by (simp add: M_do_cipher_def cbc_run_def split: prod.splits)

lemma EncryptUpdate_general_branch:
  assumes "0 < inl"
    and "\<not> (ctx_buf ctx = [] \<and> length (take (nat inl) inp) mod 16 = 0)"
    and "\<not> (ctx_buf ctx \<noteq> [] \<and> length (ctx_buf ctx) + length (take (nat inl) inp) < 16)"
  shows "EVP_EncryptUpdate P ctx inp inl =
          (let inp' = take (nat inl) inp;
               j = (if ctx_buf ctx \<noteq> [] then 16 - length (ctx_buf ctx) else 0);
               c1 = (if ctx_buf ctx \<noteq> [] then M_do_cipher P ctx (ctx_buf ctx @ take j inp') else (ctx, []));
               inp1 = drop j inp';
               i = length inp1 mod 16;
               whole = take (length inp1 - i) inp1;
               c2 = (if whole \<noteq> [] then M_do_cipher P (fst c1) whole else (fst c1, []))
           in ((fst c2)\<lparr>ctx_buf := drop (length inp1 - i) inp1\<rparr>, snd c1 @ snd c2, 1))"
proof -
  have "EVP_EncryptUpdate P ctx inp inl =
          (let inp' = take (nat inl) inp;
               j = (if ctx_buf ctx \<noteq> [] then 16 - length (ctx_buf ctx) else 0);
              (ctx1, out1) = (if ctx_buf ctx \<noteq> [] then M_do_cipher P ctx (ctx_buf ctx @ take j inp')
                              else (ctx, []));
              inp1 = drop j inp';
              i = length inp1 mod 16;
              whole = take (length inp1 - i) inp1;
              (ctx2, out2) = (if whole \<noteq> [] then M_do_cipher P ctx1 whole else (ctx1, []))
          in (ctx2\<lparr>ctx_buf := drop (length inp1 - i) inp1\<rparr>, out1 @ out2, 1))"
    unfolding EVP_EncryptUpdate_def using assms by (simp only: Let_def if_False if_True not_le [symmetric] simp_thms)
  then show ?thesis
    by (simp only: Let_def case_prod_beta)
qed

text \<open>The update consumes the buffered bytes followed by the input, in whole blocks.\<close>

lemma EncryptUpdate_stream:
  assumes b: "length b < 16" and inl: "0 < inl" and x_def: "x = b @ take (nat inl) inp"
  shows "EVP_EncryptUpdate P \<lparr>ctx_encrypt = enc, ctx_key = k, ctx_iv = ivec, ctx_buf = b,
             ctx_final = f, ctx_final_used = u\<rparr> inp inl =
           (\<lparr>ctx_encrypt = enc, ctx_key = k, ctx_iv = snd (cbc_run P enc k ivec x),
             ctx_buf = drop (length x - length x mod 16) x, ctx_final = f, ctx_final_used = u\<rparr>,
            fst (cbc_run P enc k ivec x), 1)"
proof -
  define inp' where "inp' = take (nat inl) inp"
  define ctx where "ctx = \<lparr>ctx_encrypt = enc, ctx_key = k, ctx_iv = ivec, ctx_buf = b,
             ctx_final = f, ctx_final_used = u\<rparr>"
  have cb: "ctx_buf ctx = b" by (simp add: ctx_def)
  have x: "x = b @ inp'" by (simp add: x_def inp'_def)
  consider (all) "b = []" "length inp' mod 16 = 0"
    | (keep) "b \<noteq> []" "length b + length inp' < 16"
    | (mix) "\<not> (b = [] \<and> length inp' mod 16 = 0)" "\<not> (b \<noteq> [] \<and> length b + length inp' < 16)"
    by linarith
  then show ?thesis
  proof cases
    case all
    then show ?thesis
      using inl by (simp add: EVP_EncryptUpdate_def inp'_def [symmetric] M_do_cipher_run x)
  next
    case keep
    then show ?thesis
      using inl by (simp add: EVP_EncryptUpdate_def inp'_def [symmetric] x)
  next
    case mix
    define j where "j = (if ctx_buf ctx \<noteq> [] then 16 - length (ctx_buf ctx) else 0)"
    define blk where "blk = b @ take j inp'"
    define c1 where "c1 = (if ctx_buf ctx \<noteq> [] then M_do_cipher P ctx (ctx_buf ctx @ take j inp') else (ctx, []))"
    define inp1 where "inp1 = drop j inp'"
    define i where "i = length inp1 mod 16"
    define whole where "whole = take (length inp1 - i) inp1"
    define c2 where "c2 = (if whole \<noteq> [] then M_do_cipher P (fst c1) whole else (fst c1, []))"
    have eq: "EVP_EncryptUpdate P ctx inp inl =
           ((fst c2)\<lparr>ctx_buf := drop (length inp1 - i) inp1\<rparr>, snd c1 @ snd c2, 1)"
      unfolding c2_def whole_def i_def inp1_def c1_def j_def inp'_def
      using mix by (intro EncryptUpdate_general_branch [unfolded Let_def] inl)
        (simp_all add: cb inp'_def)
    have jl: "j \<le> length inp'"
      using mix b by (auto simp: j_def cb)
    have lblk': "length blk = 0 \<or> length blk = 16"
      using jl b by (auto simp: blk_def j_def min_def cb)
    then have lblk: "length blk mod 16 = 0"
      by auto
    have xs: "x = blk @ inp1"
      by (simp add: x blk_def inp1_def)
    have c1: "c1 = (\<lparr>ctx_encrypt = enc, ctx_key = k, ctx_iv = snd (cbc_run P enc k ivec blk), ctx_buf = b,
                     ctx_final = f, ctx_final_used = u\<rparr>, fst (cbc_run P enc k ivec blk))"
    proof (cases "b = []")
      case True
      then show ?thesis by (simp add: c1_def cb blk_def j_def ctx_def)
    next
      case False
      then show ?thesis by (simp add: c1_def cb blk_def ctx_def M_do_cipher_run)
    qed
    define iv1 where "iv1 = snd (cbc_run P enc k ivec blk)"
    have wr: "cbc_run P enc k iv1 whole = cbc_run P enc k iv1 inp1"
      unfolding whole_def i_def by (rule cbc_run_whole)
    have c2: "c2 = (\<lparr>ctx_encrypt = enc, ctx_key = k, ctx_iv = snd (cbc_run P enc k iv1 inp1), ctx_buf = b,
                     ctx_final = f, ctx_final_used = u\<rparr>, fst (cbc_run P enc k iv1 inp1))"
    proof (cases "whole = []")
      case True
      then have "cbc_run P enc k iv1 whole = ([], iv1)" by simp
      with wr have "cbc_run P enc k iv1 inp1 = ([], iv1)" by simp
      with True show ?thesis by (simp add: c2_def c1 iv1_def)
    next
      case False
      then show ?thesis by (simp add: c2_def c1 M_do_cipher_run iv1_def [symmetric] wr)
    qed
    have r1: "cbc_run P enc k ivec x =
        (fst (cbc_run P enc k ivec blk) @ fst (cbc_run P enc k iv1 inp1),
         snd (cbc_run P enc k iv1 inp1))"
      unfolding xs iv1_def by (rule cbc_run_append [OF lblk])
    have lx: "length x = length blk + length inp1"
      by (simp add: xs)
    have xm: "length x mod 16 = i"
      using lblk' by (auto simp: lx i_def)
    have "i \<le> length inp1"
      by (simp add: i_def)
    then have "length x - length x mod 16 = length blk + (length inp1 - i)"
      unfolding xm by (simp add: lx)
    then have bf: "drop (length x - length x mod 16) x = drop (length inp1 - i) inp1"
      by (simp add: xs)
    show ?thesis
      unfolding ctx_def [symmetric] eq by (simp add: c1 c2 r1 bf)
  qed
qed

text \<open>An update with nothing to consume leaves the context alone; otherwise it streams.\<close>

lemma EncryptUpdate_any:
  assumes b: "length b < 16" and x_def: "x = b @ take (nat inl) inp"
  shows "EVP_EncryptUpdate P \<lparr>ctx_encrypt = enc, ctx_key = k, ctx_iv = ivec, ctx_buf = b,
             ctx_final = f, ctx_final_used = u\<rparr> inp inl =
           (\<lparr>ctx_encrypt = enc, ctx_key = k, ctx_iv = snd (cbc_run P enc k ivec x),
             ctx_buf = drop (length x - length x mod 16) x, ctx_final = f, ctx_final_used = u\<rparr>,
            fst (cbc_run P enc k ivec x), if inl < 0 then 0 else 1)"
proof (cases "0 < inl")
  case True
  then show ?thesis
    using EncryptUpdate_stream [OF b True x_def, of P enc k ivec f u] by simp
next
  case False
  then have "x = b" by (simp add: x_def)
  then show ?thesis
    using False b by (simp add: EVP_EncryptUpdate_def ret_code_def)
qed

lemma EncryptFinal_run:
  "EVP_EncryptFinal_ex P \<lparr>ctx_encrypt = enc, ctx_key = k, ctx_iv = ivec, ctx_buf = b,
       ctx_final = f, ctx_final_used = u\<rparr> =
     (\<lparr>ctx_encrypt = enc, ctx_key = k,
        ctx_iv = snd (cbc_run P enc k ivec (b @ replicate (16 - length b) (of_nat (16 - length b)))),
        ctx_buf = b, ctx_final = f, ctx_final_used = u\<rparr>,
      fst (cbc_run P enc k ivec (b @ replicate (16 - length b) (of_nat (16 - length b)))), 1)"
  by (simp add: EVP_EncryptFinal_ex_def M_do_cipher_run Let_def)

lemma DecryptUpdate_stream:
  assumes b: "length b < 16" and inl: "0 < inl" and x_def: "x = b @ take (nat inl) inp"
  shows "EVP_DecryptUpdate P \<lparr>ctx_encrypt = enc, ctx_key = k, ctx_iv = ivec, ctx_buf = b,
             ctx_final = f, ctx_final_used = False\<rparr> inp inl =
           (if drop (length x - length x mod 16) x = [] then
              (\<lparr>ctx_encrypt = enc, ctx_key = k, ctx_iv = snd (cbc_run P enc k ivec x), ctx_buf = [],
                ctx_final = drop (length (fst (cbc_run P enc k ivec x)) - 16) (fst (cbc_run P enc k ivec x)),
                ctx_final_used = True\<rparr>,
               fst (cbc_run P enc k ivec x), int (length (fst (cbc_run P enc k ivec x))) - 16, 1)
            else
              (\<lparr>ctx_encrypt = enc, ctx_key = k, ctx_iv = snd (cbc_run P enc k ivec x),
                ctx_buf = drop (length x - length x mod 16) x, ctx_final = f, ctx_final_used = False\<rparr>,
               fst (cbc_run P enc k ivec x), int (length (fst (cbc_run P enc k ivec x))), 1))"
  using inl by (simp add: EVP_DecryptUpdate_def EncryptUpdate_stream [OF b inl x_def] Let_def)

lemma makeHMAC_length: "makeHMAC P secret data = (l, Inr mac) \<Longrightarrow> length mac = 32"
  by (auto simp: makeHMAC_def Let_def store_def ret_code_def front_def bnd_call bnd_emit
           split: if_splits option.splits)

section \<open>What encryption produces\<close>

lemma logged_throw [simp]: "logged l (throw e) = (l, Inl e)"
  by (simp add: logged_def)

lemma logged_ret [simp]: "logged l (ret x) = (l, Inr x)"
  by (simp add: logged_def)

lemma logged_pair [simp]: "logged l (l', r) = (l @ l', r)"
  by (simp add: logged_def)

lemma logged_logged [simp]: "logged l (logged l' m) = logged (l @ l') m"
  by (simp add: logged_def)

lemma logged_if: "logged l (if c then a else b) = (if c then logged l a else logged l b)"
  by simp

lemma bnd_Inr_logged: "bnd (l, Inr x) f = logged l (f x)"
  by (simp add: bnd_def logged_def split: prod.splits)

lemma bnd_call_logged: "bnd (call a r) f = logged [Call a r] (f ())"
  by (simp add: call_def emit_def bnd_def logged_def split: prod.splits)

lemma bnd_emit_logged: "bnd (emit ev) f = logged [ev] (f ())"
  by (simp add: emit_def bnd_def logged_def split: prod.splits)

lemma bnd_front_logged:
  "bnd (front n) f = logged (if n = 0 then [front_of_empty_vector] else []) (f ())"
  by (simp add: front_def emit_def ret_def bnd_def logged_def split: prod.splits)

lemma bnd_cassert_if: "bnd (cassert c) f = (if c then f () else throw assertion_failed)"
  by (simp add: cassert_def)

lemma bnd_logged: "bnd (logged l m) f = logged l (bnd m f)"
  by (cases m) (auto simp: bnd_def logged_def split: sum.splits prod.splits)

lemmas logged_simps = bnd_Inr_logged bnd_call_logged bnd_emit_logged bnd_front_logged bnd_cassert_if
  bnd_logged

lemma cbc_run_enc_length:
  assumes "\<forall>k b. length b = 16 \<longrightarrow> length (aes_encrypt P k b) = 16" and "length ivec = 16"
  shows "length (fst (cbc_run P True k ivec inp)) = length inp - length inp mod 16"
    and "length (snd (cbc_run P True k ivec inp)) = 16"
  using cbc_encrypt_length [OF assms, of k inp] by (simp_all add: cbc_run_def)

text \<open>
  A successful encryption returns the envelope of the MAC and the plaintext under the shared
  secret and the drawn IV; its plaintext is shorter than \<open>2^31\<close> bytes (a longer one is
  truncated by the conversion to \<^verbatim>\<open>int\<close> and stopped by the final assertion); and its log
  is the sequence of calls below, with an access to \<^verbatim>\<open>plaintext.front()\<close> of an empty
  vector exactly when the plaintext is empty.
\<close>

lemma encrypt_ok_envelope:
  fixes pt :: bytes
  assumes E: "\<forall>k b. length b = 16 \<longrightarrow> length (aes_encrypt P k b) = 16"
    and ok: "encryptECIES P entropy self other pt = (l, Inr ct)"
    and g: "getECIESSecret P self other = (l0, Inr secret)"
    and h: "makeHMAC P secret pt = (l1, Inr mac)"
    and e: "entropy = Some rnd"
  shows "length pt < 2147483648 \<and> ct = envelope P secret (map rnd [0..<16]) mac pt \<and>
         l = l0 @ l1 @ [Call API_RAND_bytes 1, Call API_EVP_EncryptInit_ex 1,
                        Call API_EVP_EncryptUpdate 1] @
               (if pt = [] then [front_of_empty_vector] else []) @
               [Call API_EVP_EncryptUpdate 1, Call API_EVP_EncryptFinal_ex 1]"
proof -
  define n where "n = length pt"
  define iv where "iv = map rnd [0..<16]"
  have liv: "length iv = 16" by (simp add: iv_def)
  have lmac: "length mac = 32" using h by (rule makeHMAC_length)
  define x2 where "x2 = take (nat (as_int (int n))) pt"
  define iv1 where "iv1 = snd (cbc_run P True secret iv mac)"
  define w1 where "w1 = fst (cbc_run P True secret iv mac)"
  define iv2 where "iv2 = snd (cbc_run P True secret iv1 x2)"
  define w2 where "w2 = fst (cbc_run P True secret iv1 x2)"
  define buf2 where "buf2 = drop (length x2 - length x2 mod 16) x2"
  define last_block where "last_block = buf2 @ replicate (16 - length buf2) (of_nat (16 - length buf2))"
  define w3 where "w3 = fst (cbc_run P True secret iv2 last_block)"
  define iv3 where "iv3 = snd (cbc_run P True secret iv2 last_block)"
  have u1: "EVP_EncryptUpdate P \<lparr>ctx_encrypt = True, ctx_key = secret, ctx_iv = iv, ctx_buf = [],
             ctx_final = [], ctx_final_used = False\<rparr> mac 32 =
           (\<lparr>ctx_encrypt = True, ctx_key = secret, ctx_iv = iv1, ctx_buf = [],
             ctx_final = [], ctx_final_used = False\<rparr>, w1, 1)"
    using lmac by (subst EncryptUpdate_any [where x = mac]) (simp_all add: iv1_def w1_def)
  have u2: "EVP_EncryptUpdate P \<lparr>ctx_encrypt = True, ctx_key = secret, ctx_iv = iv1, ctx_buf = [],
             ctx_final = [], ctx_final_used = False\<rparr> pt (as_int (int n)) =
           (\<lparr>ctx_encrypt = True, ctx_key = secret, ctx_iv = iv2, ctx_buf = buf2,
             ctx_final = [], ctx_final_used = False\<rparr>, w2, if as_int (int n) < 0 then 0 else 1)"
    by (subst EncryptUpdate_any [where x = x2]) (simp_all add: iv2_def w2_def x2_def buf2_def)
  have u3: "EVP_EncryptFinal_ex P \<lparr>ctx_encrypt = True, ctx_key = secret, ctx_iv = iv2, ctx_buf = buf2,
             ctx_final = [], ctx_final_used = False\<rparr> =
           (\<lparr>ctx_encrypt = True, ctx_key = secret, ctx_iv = iv3, ctx_buf = buf2,
             ctx_final = [], ctx_final_used = False\<rparr>, w3, 1)"
    by (simp add: EncryptFinal_run w3_def iv3_def last_block_def)
  have lw1: "length w1 = 32" and liv1: "length iv1 = 16"
    using cbc_run_enc_length [OF E liv, of secret mac] lmac by (simp_all add: w1_def iv1_def)
  have lw2: "length w2 = length x2 - length x2 mod 16" and liv2: "length iv2 = 16"
    using cbc_run_enc_length [OF E liv1, of secret x2] by (simp_all add: w2_def iv2_def)
  have lbuf2: "length buf2 = length x2 mod 16"
    by (simp add: buf2_def)
  then have llast: "length last_block = 16"
    by (simp add: last_block_def)
  have lw3: "length w3 = 16"
    using cbc_run_enc_length [OF E liv2, of secret last_block] llast by (simp add: w3_def)
  note ok' = ok [unfolded encryptECIES_def]
  have res: "32 + int (length pt) \<le> int (length w1) + (int (length w2) + int (length w3)) \<and>
      ct = resize
       (store
         (store (store (store (replicate (80 + length pt) 0) 0 iv) 16 w1)
           (nat (16 + int (length w1))) w2)
         (nat (16 + int (length w1) + int (length w2))) w3)
       (nat (16 + int (length w1) + int (length w2) + int (length w3))) \<and>
      l = l0 @ l1 @ [Call API_RAND_bytes 1, Call API_EVP_EncryptInit_ex 1,
                     Call API_EVP_EncryptUpdate 1] @
            (if pt = [] then [front_of_empty_vector] else []) @
            [Call API_EVP_EncryptUpdate (if as_int (int (length pt)) < 0 then 0 else 1),
             Call API_EVP_EncryptFinal_ex 1]"
    using ok' 
    by (simp add: g h e EVP_CipherInit_def iv_def [symmetric] logged_simps Let_def u1 u2 [unfolded n_def] u3 split: if_splits)
  have small: "n < 2147483648"
  proof (rule ccontr)
    assume "\<not> n < 2147483648"
    then have big: "2147483648 \<le> int n" by simp
    have "length x2 \<le> nat (as_int (int n))"
      by (simp add: x2_def)
    also have "\<dots> < 2147483648"
      using as_int_less [of "int n"] by simp
    finally have lx: "length x2 < 2147483648" .
    from res lw1 lw2 lw3 have "n \<le> length x2 + 16"
      by (simp add: n_def)
    with lx have "int n < 4294967296" by simp
    with big have "as_int (int n) = int n - 4294967296"
      by (rule as_int_wrap)
    with \<open>int n < 4294967296\<close> have "x2 = []"
      by (simp add: x2_def)
    with \<open>n \<le> length x2 + 16\<close> big show False by simp
  qed
  then have an: "as_int (int n) = int n"
    by (intro as_int_id) simp_all
  then have x2: "x2 = pt"
    by (simp add: x2_def n_def)
  from res an have tr: "l = l0 @ l1 @ [Call API_RAND_bytes 1, Call API_EVP_EncryptInit_ex 1,
                     Call API_EVP_EncryptUpdate 1] @
            (if pt = [] then [front_of_empty_vector] else []) @
            [Call API_EVP_EncryptUpdate 1, Call API_EVP_EncryptFinal_ex 1]"
    by (simp add: n_def)
  have t1: "take 16 (store (replicate (80 + length pt) 0) 0 iv) = iv"
    using store_prefix [of 0 "replicate (80 + length pt) 0" "[]" iv] liv by simp
  have t2: "take 48 (store (store (replicate (80 + length pt) 0) 0 iv) 16 w1) = iv @ w1"
    using store_prefix [OF t1 liv, of w1] lw1 by simp
  have t3: "take (48 + length w2) (store (store (store (replicate (80 + length pt) 0) 0 iv) 16 w1) 48 w2)
              = iv @ w1 @ w2"
    using store_prefix [OF t2, of w2] liv lw1 by simp
  have t4: "take (64 + length w2)
              (store (store (store (store (replicate (80 + length pt) 0) 0 iv) 16 w1) 48 w2)
                 (48 + length w2) w3) = iv @ w1 @ w2 @ w3"
    using store_prefix [OF t3, of w3] liv lw1 lw3 by (simp add: add.commute)
  have ct: "ct = iv @ w1 @ w2 @ w3"
    using res resize_prefix [OF t4] liv lw1 lw3 by (simp add: nat_add_distrib)
  define n' where "n' = n - n mod 16"
  have "n' \<le> length pt"
    by (simp add: n'_def n_def)
  then have "length (take n' pt) = n'"
    by simp
  moreover have "n' mod 16 = 0"
    by (simp add: n'_def mod_eq_0_iff_dvd dvd_minus_mod)
  ultimately have n': "length (take n' pt) mod 16 = 0"
    by simp
  have b2: "buf2 = drop n' pt"
    by (simp add: buf2_def x2 n'_def n_def)
  have lb: "last_block = buf2 @ pkcs_padding n"
    by (simp add: last_block_def pkcs_padding_def lbuf2 x2 n_def)
  have whole: "cbc_run P True secret iv1 (take n' pt) = cbc_run P True secret iv1 pt"
    unfolding n'_def n_def by (rule cbc_run_whole)
  have "cbc_run P True secret iv1 (pt @ pkcs_padding n) =
          cbc_run P True secret iv1 (take n' pt @ (buf2 @ pkcs_padding n))"
    unfolding b2 by (simp only: append_assoc [symmetric] append_take_drop_id)
  also have "fst \<dots> = w2 @ w3"
    by (subst cbc_run_append [OF n']) (simp add: whole w2_def w3_def iv2_def x2 lb)
  finally have body: "fst (cbc_run P True secret iv1 (pt @ pkcs_padding n)) = w2 @ w3" .
  have "fst (cbc_run P True secret iv (mac @ pt @ pkcs_padding n)) = w1 @ w2 @ w3"
    using lmac by (subst cbc_run_append) (simp_all add: w1_def iv1_def [symmetric] body)
  then have "ct = envelope P secret iv mac pt"
    by (simp add: ct envelope_def cbc_run_def n_def)
  with small tr show ?thesis
    by (simp add: n_def iv_def)
qed

section \<open>Decrypting an envelope\<close>

lemma pkcs_padding_facts:
  "length (pkcs_padding n) = 16 - n mod 16"
  "(n + length (pkcs_padding n)) mod 16 = 0"
  "1 \<le> length (pkcs_padding n)" "length (pkcs_padding n) \<le> 16"
proof -
  show l: "length (pkcs_padding n) = 16 - n mod 16"
    by (simp add: pkcs_padding_def)
  have e: "n + (16 - n mod 16) = (n - n mod 16) + 16"
    by (simp add: mod_less_eq_dividend)
  have "(n + (16 - n mod 16)) mod 16 = ((n - n mod 16) + 16) mod 16"
    by (simp only: e)
  also have "\<dots> = (n - n mod 16) mod 16"
    by (rule mod_add_self2)
  also have "\<dots> = 0"
    by (simp add: mod_eq_0_iff_dvd dvd_minus_mod)
  finally show "(n + length (pkcs_padding n)) mod 16 = 0"
    unfolding l .
  have "n mod 16 < 16" by simp
  then show "1 \<le> length (pkcs_padding n)" "length (pkcs_padding n) \<le> 16"
    unfolding l by linarith+
qed

lemma cbc_run_dec_enc:
  assumes "block_cipher P" and "length ivec = 16" and "length inp mod 16 = 0"
  shows "cbc_run P False k ivec (fst (cbc_run P True k ivec inp)) = (inp, snd (cbc_run P True k ivec inp))"
  using cbc_decrypt_encrypt [of "aes_encrypt P" "aes_decrypt P" ivec inp k] assms
  by (simp add: cbc_run_def block_cipher_def)

lemma block_cipher_length:
  "block_cipher P \<Longrightarrow> \<forall>k b. length b = 16 \<longrightarrow> length (aes_encrypt P k b) = 16"
  by (simp add: block_cipher_def)

lemma DecryptFinal_padded:
  assumes Y: "Y = pt @ pkcs_padding (length pt)"
  shows "EVP_DecryptFinal \<lparr>ctx_encrypt = enc, ctx_key = k, ctx_iv = ivec, ctx_buf = [],
            ctx_final = drop (length Y - 16) Y, ctx_final_used = True\<rparr> =
           (take (16 - length (pkcs_padding (length pt))) (drop (length Y - 16) Y),
            int (16 - length (pkcs_padding (length pt))), 1)"
proof -
  define n where "n = length pt"
  define p where "p = length (pkcs_padding n)"
  have p: "1 \<le> p" "p \<le> 16" "p = 16 - n mod 16"
    using pkcs_padding_facts [of n] by (simp_all add: p_def)
  have pad: "pkcs_padding n = replicate p (of_nat p)"
    by (simp add: pkcs_padding_def p(3))
  have lY: "length Y = n + p"
    by (simp add: Y n_def p_def)
  have "(n + p) mod 16 = 0"
    using pkcs_padding_facts(2) [of n] by (simp add: p_def)
  with p have n16: "16 \<le> n + p"
    by (cases "n + p < 16") auto
  define fin where "fin = drop (length Y - 16) Y"
  have lf: "length fin = 16"
    using n16 by (simp add: fin_def lY)
  have "fin ! 15 = Y ! (length Y - 16 + 15)"
    unfolding fin_def using n16 lY by (subst nth_drop) simp_all
  also have "length Y - 16 + 15 = n + (p - 1)"
    using n16 p lY by simp
  also have "Y ! (n + (p - 1)) = pkcs_padding n ! (p - 1)"
    by (simp add: Y n_def nth_append)
  also have "\<dots> = of_nat p"
    using p by (simp add: pad)
  finally have last: "fin ! 15 = of_nat p" .
  have up: "unat (of_nat p :: byte) = p"
    using p by (intro unat_small) simp
  have "drop (16 - p) fin = drop (length Y - p) Y"
    using p n16 lY by (simp add: fin_def)
  also have "\<dots> = pkcs_padding n"
    by (simp add: Y lY n_def p_def)
  finally have tail: "drop (16 - p) fin = replicate p (of_nat p)"
    by (simp add: pad)
  show ?thesis
    unfolding fin_def [symmetric] n_def [symmetric] p_def [symmetric]
    using p(1,2) by (simp add: EVP_DecryptFinal_def last up tail list_all_iff)
qed


lemma decrypt_envelope:
  assumes bc: "block_cipher P"
    and g: "getECIESSecret P self other = (l0, Inr secret)"
    and h: "makeHMAC P secret pt = (l1, Inr mac)"
    and liv: "length iv = 16"
    and init: "cipher_init_ok P False secret iv"
    and small: "length pt < 2147483648"
  shows "decryptECIES P self other (envelope P secret iv mac pt) =
           (l0 @ [Call API_EVP_DecryptInit_ex 1, Call API_EVP_DecryptUpdate 1,
                  Call API_EVP_DecryptUpdate 1, Call API_EVP_DecryptFinal 1] @ l1 @
                 [hmac_compared False], Inr pt)"
proof -
  note E = block_cipher_length [OF bc]
  define n where "n = length pt"
  define p where "p = length (pkcs_padding n)"
  define Y where "Y = pt @ pkcs_padding n"
  define iv1 where "iv1 = snd (cbc_run P True secret iv mac)"
  define C1 where "C1 = fst (cbc_run P True secret iv mac)"
  define C2 where "C2 = fst (cbc_run P True secret iv1 Y)"
  define C where "C = C1 @ C2"
  define ct where "ct = iv @ C"
  have lmac: "length mac = 32" using h by (rule makeHMAC_length)
  have p: "1 \<le> p" "p \<le> 16"
    using pkcs_padding_facts [of n] by (simp_all add: p_def)
  have lY: "length Y = n + p"
    by (simp add: Y_def n_def p_def)
  have mY: "length Y mod 16 = 0"
    using pkcs_padding_facts(2) [of n] by (simp add: lY p_def)
  with p have Y16: "16 \<le> length Y"
    unfolding lY by (cases "n + p < 16") auto
  have lC1: "length C1 = 32" and liv1: "length iv1 = 16"
    using cbc_run_enc_length [OF E liv, of secret mac] lmac by (simp_all add: C1_def iv1_def)
  have lC2: "length C2 = length Y"
    using cbc_run_enc_length(1) [OF E liv1, of secret Y] mY by (simp add: C2_def)
  have "fst (cbc_run P True secret iv (mac @ Y)) = C1 @ C2"
    using lmac by (subst cbc_run_append) (simp_all add: C1_def C2_def iv1_def)
  then have env: "envelope P secret iv mac pt = ct"
    by (simp add: envelope_def ct_def C_def Y_def n_def cbc_run_def)
  have lct: "length ct = 48 + length Y"
    by (simp add: ct_def C_def liv lC1 lC2)
  have d1: "cbc_run P False secret iv C1 = (mac, iv1)"
    unfolding C1_def iv1_def using lmac by (intro cbc_run_dec_enc [OF bc liv]) simp
  have d2: "cbc_run P False secret iv1 C2 = (Y, snd (cbc_run P True secret iv1 Y))"
    unfolding C2_def by (rule cbc_run_dec_enc [OF bc liv1 mY])
  txt \<open>the first update: 33 bytes in, the MAC out, one byte buffered\<close>
  define x1 where "x1 = take 33 C"
  have lx1: "length x1 = 33"
    using Y16 by (simp add: x1_def C_def lC1 lC2)
  have t32: "take 32 x1 = C1"
    by (simp add: x1_def C_def lC1)
  have l32: "length x1 - length x1 mod 16 = 32"
    unfolding lx1 by simp
  have x1w: "take (length x1 - length x1 mod 16) x1 = C1"
    by (simp only: l32 t32)
  have r1: "cbc_run P False secret iv x1 = (mac, iv1)"
    using cbc_run_whole [of P False secret iv x1] by (simp add: x1w d1)
  define b1 where "b1 = drop 32 x1"
  have lb1: "length b1 = 1"
    by (simp add: b1_def lx1)
  have u1: "EVP_DecryptUpdate P \<lparr>ctx_encrypt = False, ctx_key = secret, ctx_iv = iv, ctx_buf = [],
             ctx_final = [], ctx_final_used = False\<rparr> (drop 16 ct) 33 =
            (\<lparr>ctx_encrypt = False, ctx_key = secret, ctx_iv = iv1, ctx_buf = b1,
              ctx_final = [], ctx_final_used = False\<rparr>, mac, 32, 1)"
  proof -
    have x1eq: "x1 = [] @ take (nat 33) (drop 16 ct)"
      by (simp add: x1_def ct_def liv)
    have "b1 \<noteq> []"
      using lb1 by auto
    then show ?thesis
      using DecryptUpdate_stream [OF _ _ x1eq, of P False secret iv "[]"]
      by (simp add: r1 l32 b1_def [symmetric] lmac)
  qed
  txt \<open>the second update: the rest, a whole number of blocks with the buffered byte\<close>
  have "int (length ct) - 49 < 2147483648"
  proof -
    have "n - n mod 16 + 16 \<le> 2147483648"
    proof -
      have "(n - n mod 16) mod 16 = 0"
        by (simp add: mod_eq_0_iff_dvd dvd_minus_mod)
      moreover have "n - n mod 16 < 2147483648"
        using small by (simp add: n_def less_imp_diff_less)
      ultimately show ?thesis by presburger
    qed
    moreover have "length Y = n - n mod 16 + 16"
      using pkcs_padding_facts(1) [of n] by (simp add: lY p_def mod_less_eq_dividend)
    ultimately show ?thesis
      by (simp add: lct)
  qed
  then have inl2: "as_int (int (length ct) - 49) = int (length C) - 33"
    using Y16 by (subst as_int_id) (simp_all add: lct C_def lC1 lC2)
  have pos2: "0 < int (length C) - 33"
    using Y16 by (simp add: C_def lC1 lC2)
  have x2: "b1 @ take (nat (int (length C) - 33)) (drop 49 ct) = C2"
  proof -
    have "drop 49 ct = drop 33 C"
      by (simp add: ct_def liv)
    then have "b1 @ take (nat (int (length C) - 33)) (drop 49 ct) = drop 32 (take 33 C) @ drop 33 C"
      by (simp add: b1_def x1_def)
    also have "\<dots> = drop 32 (take 33 C @ drop 33 C)"
    proof -
      have a: "drop 32 (take 33 C @ drop 33 C) =
                 drop 32 (take 33 C) @ drop (32 - length (take 33 C)) (drop 33 C)"
        by (rule drop_append)
      have b: "32 - length (take 33 C) = 0"
        using lx1 by (simp add: x1_def)
      show ?thesis
        unfolding a b by simp
    qed
    also have "\<dots> = drop 32 C"
      by (simp only: append_take_drop_id)
    also have "\<dots> = C2"
      by (simp add: C_def lC1)
    finally show ?thesis .
  qed
  have u2: "EVP_DecryptUpdate P \<lparr>ctx_encrypt = False, ctx_key = secret, ctx_iv = iv1, ctx_buf = b1,
              ctx_final = [], ctx_final_used = False\<rparr> (drop 49 ct) (int (length C) - 33) =
            (\<lparr>ctx_encrypt = False, ctx_key = secret, ctx_iv = snd (cbc_run P True secret iv1 Y),
              ctx_buf = [], ctx_final = drop (length Y - 16) Y, ctx_final_used = True\<rparr>,
             Y, int (length Y) - 16, 1)"
    using lb1 mY
    by (subst DecryptUpdate_stream [where x = C2, OF _ pos2 x2 [symmetric]]) (simp_all add: d2 lC2)
  have u3: "EVP_DecryptFinal \<lparr>ctx_encrypt = False, ctx_key = secret,
              ctx_iv = snd (cbc_run P True secret iv1 Y),
              ctx_buf = [], ctx_final = drop (length Y - 16) Y, ctx_final_used = True\<rparr> =
            (take (16 - p) (drop (length Y - 16) Y), int (16 - p), 1)"
    using DecryptFinal_padded [of Y pt] by (simp add: Y_def n_def p_def)
  txt \<open>the plaintext buffer\<close>
  define w3 where "w3 = take (16 - p) (drop (length Y - 16) Y)"
  have lw3: "length w3 = 16 - p"
    using Y16 by (simp add: w3_def)
  have s1: "take (length Y) (store (replicate (length Y) 0) 0 Y) = Y"
    using store_prefix [of 0 "replicate (length Y) 0" "[]" Y] by simp
  have s1': "take (length Y - 16) (store (replicate (length Y) 0) 0 Y) = take (length Y - 16) Y"
    using take_take_le [OF s1, of "length Y - 16"] by simp
  have "take (length Y - 16 + length w3) (store (store (replicate (length Y) 0) 0 Y) (length Y - 16) w3)
          = take (length Y - 16) Y @ w3"
    using Y16 by (intro store_prefix [OF s1']) simp
  also have "\<dots> = take (length Y - 16 + (16 - p)) Y"
    by (simp add: w3_def take_add)
  also have "length Y - 16 + (16 - p) = n"
    using p Y16 lY by simp
  finally have s2: "take n (store (store (replicate (length Y) 0) 0 Y) (length Y - 16) w3) = pt"
    using p Y16 lY by (simp add: lw3 Y_def n_def)
  have fin: "resize (store (store (replicate (length Y) 0) 0 Y) (length Y - 16) w3) n = pt"
    using s2 by (rule resize_prefix) (simp add: n_def)
  have nn: "nat (int (16 - p) + (int (length Y) - 16)) = n" "nat (int (length Y) - 16) = length Y - 16"
    using p Y16 lY by simp_all
  have nshort: "\<not> length ct < 64" and ne: "ct \<noteq> []" and psz: "length ct - 48 = length Y"
    using lct Y16 by auto
  have tk: "take 16 ct = iv"
    by (simp add: ct_def liv)
  have Yne: "Y \<noteq> []"
    using Y16 by auto
  show ?thesis
    unfolding env decryptECIES_def
    using init
    by (simp add: g h logged_simps Let_def EVP_CipherInit_def nshort ne psz tk Yne
          u1 inl2 u2 u3 w3_def [symmetric] nn fin ret_code_def)
qed


section \<open>Which runs take the front of an empty vector\<close>

lemma no_ub_ret: "no_ub (ret x)" and no_ub_throw: "no_ub (throw e)" and no_ub_call: "no_ub (call a r)"
  and no_ub_cassert: "no_ub (cassert c)"
  by (simp_all add: no_ub_def call_def emit_def cassert_def)

lemma no_ub_front: "n \<noteq> 0 \<Longrightarrow> no_ub (front n)"
  by (simp add: no_ub_def front_def)

lemma no_ub_bnd: "no_ub m \<Longrightarrow> (\<And>x. no_ub (f x)) \<Longrightarrow> no_ub (bnd m f)"
  by (auto simp: no_ub_def fst_bnd split: sum.splits)

lemma no_ub_if: "(c \<Longrightarrow> no_ub a) \<Longrightarrow> (\<not> c \<Longrightarrow> no_ub b) \<Longrightarrow> no_ub (if c then a else b)"
  by simp

lemmas no_ub_intros = no_ub_ret no_ub_throw no_ub_call no_ub_cassert no_ub_bnd no_ub_if

lemma no_ub_getECIESSecret: "no_ub (getECIESSecret P self other)"
  using getECIESSecret_trace [of P self other] by (auto simp: no_ub_def)

lemma no_ub_makeHMAC: "data \<noteq> [] \<Longrightarrow> no_ub (makeHMAC P secret data)"
  unfolding makeHMAC_def Let_def
  by (auto intro!: no_ub_intros no_ub_front split: option.splits)

lemma no_ub_encryptECIES: "plaintext \<noteq> [] \<Longrightarrow> no_ub (encryptECIES P entropy self other plaintext)"
  unfolding encryptECIES_def Let_def
  by (auto intro!: no_ub_intros no_ub_front no_ub_getECIESSecret no_ub_makeHMAC
           split: option.splits prod.splits)

lemma ub_makeHMAC_empty:
  "hmac_init_ok P secret \<Longrightarrow> front_of_empty_vector \<in> set (fst (makeHMAC P secret []))"
  by (simp add: makeHMAC_def ret_code_def logged_simps logged_def)


section \<open>The length of the ciphertext, and the round trip\<close>

lemma encrypt_ok_parts:
  assumes ok: "encryptECIES P entropy self other pt = (l, Inr ct)"
  shows "\<exists>secret l1 mac rnd.
           getECIESSecret P self other = ([Call API_ECDH_compute_key 32], Inr secret) \<and>
           makeHMAC P secret pt = (l1, Inr mac) \<and> entropy = Some rnd \<and>
           cipher_init_ok P True secret (map rnd [0..<16])"
proof -
  obtain l0 r0 where g0: "getECIESSecret P self other = (l0, r0)"
    by (cases "getECIESSecret P self other")
  from ok g0 obtain secret where r0: "r0 = Inr secret"
    by (cases r0) (auto simp: encryptECIES_def)
  with g0 have g: "getECIESSecret P self other = ([Call API_ECDH_compute_key 32], Inr secret)"
    using getECIESSecret_ok_trace [of P self other l0 secret] by simp
  obtain l1 r1 where h0: "makeHMAC P secret pt = (l1, r1)"
    by (cases "makeHMAC P secret pt")
  from ok g h0 obtain mac where r1: "r1 = Inr mac"
    by (cases r1) (auto simp: encryptECIES_def logged_simps)
  from ok g h0 r1 obtain rnd where e: "entropy = Some rnd"
    by (cases entropy) (auto simp: encryptECIES_def logged_simps)
  have "cipher_init_ok P True secret (map rnd [0..<16])"
  proof (rule ccontr)
    assume "\<not> cipher_init_ok P True secret (map rnd [0..<16])"
    with ok g h0 r1 e show False
      by (simp add: encryptECIES_def logged_simps ret_code_def)
  qed
  with g h0 r1 e show ?thesis by blast
qed


lemma pad_arith:
  "(n::nat) + (16 - n mod 16) = 16 * (n div 16 + 1)"
  "(32 + n) div 16 = n div 16 + 2"
  "(32 + (k::nat)) mod 16 = k mod 16"
  by presburger+

lemma envelope_length:
  assumes E: "\<forall>k b. length b = 16 \<longrightarrow> length (aes_encrypt P k b) = 16"
    and liv: "length ivec = 16" and lmac: "length mac = 32"
  shows "length (envelope P secret ivec mac pt) = 16 + 16 * ((32 + length pt) div 16 + 1)"
proof -
  define n where "n = length pt"
  define p where "p = length (pkcs_padding n)"
  define X where "X = mac @ pt @ pkcs_padding n"
  have lX: "length X = 32 + (n + p)"
    by (simp add: X_def lmac n_def p_def)
  have "(n + p) mod 16 = 0"
    unfolding p_def by (rule pkcs_padding_facts(2))
  then have mX: "length X mod 16 = 0"
    unfolding lX by (simp only: pad_arith(3))
  have c: "length (fst (aes_cbc_encrypt (aes_encrypt P) secret ivec X)) = length X"
    using cbc_encrypt_length [OF E liv, of secret X] mX by simp
  have "p = 16 - n mod 16"
    unfolding p_def by (rule pkcs_padding_facts(1))
  then have np: "n + p = 16 * (n div 16 + 1)"
    by (simp only: pad_arith(1))
  have "length (envelope P secret ivec mac pt) = 16 + length X"
    unfolding envelope_def X_def n_def by (simp add: liv c [unfolded X_def n_def])
  also have "\<dots> = 16 + (32 + 16 * (n div 16 + 1))"
    by (simp only: lX np)
  also have "\<dots> = 16 + 16 * ((32 + n) div 16 + 1)"
    unfolding pad_arith(2) by simp
  finally show ?thesis
    by (simp only: n_def)
qed

lemma encrypt_ok_length:
  assumes "block_cipher P" and ok: "encryptECIES P entropy self other pt = (l, Inr ct)"
  shows "length ct = 16 + 16 * ((32 + length pt) div 16 + 1)"
proof -
  note E = block_cipher_length [OF assms(1)]
  from encrypt_ok_parts [OF ok] obtain secret l1 mac rnd where
    g: "getECIESSecret P self other = ([Call API_ECDH_compute_key 32], Inr secret)" and
    h: "makeHMAC P secret pt = (l1, Inr mac)" and e: "entropy = Some rnd"
    by blast
  from encrypt_ok_envelope [OF E ok g h e]
  have "ct = envelope P secret (map rnd [0..<16]) mac pt" by simp
  then show ?thesis
    using envelope_length [OF E _ makeHMAC_length [OF h], of "map rnd [0..<16]" secret pt] by simp
qed

lemma toy_block_cipher: "block_cipher toy"
  by (simp add: block_cipher_def toy_def comp_def)

text \<open>
  C9. Whenever encryption returns a ciphertext, its length is the block size plus
  \<open>16 * ((MACSize + len P) div 16 + 1)\<close>: the IV, then the MAC and the plaintext rounded up
  to whole blocks with a padding block that is always added, also when \<open>MACSize + len P\<close> is a
  multiple of 16 already. The hypothesis on the primitives is that the block cipher maps
  16-byte blocks to 16-byte blocks. No bound on the plaintext is assumed: a plaintext of
  \<open>2^31\<close> bytes or more does not get through the assertions.
\<close>

theorem ciphertext_length:
  assumes "block_cipher P" and "encryptECIES P entropy self other plaintext = (l, Inr ciphertext)"
  shows "length ciphertext =
           ECIES_ENC_BLK_SIZE + 16 * ((ECIES_HMAC_SIZE + length plaintext) div 16 + 1)"
  using encrypt_ok_length [OF assms] by simp

text \<open>A plaintext of one whole block: 16 + 32 + 16 bytes, and 16 more of padding.\<close>

theorem ciphertext_length_witness:
  "block_cipher toy \<and>
   \<not> isl (snd (encryptECIES toy toy_entropy (toy_priv 3) (toy_pub 5) (replicate 16 9))) \<and>
   length (projr (snd (encryptECIES toy toy_entropy (toy_priv 3) (toy_pub 5) (replicate 16 9)))) = 80"
proof -
  have r: "\<not> isl (snd (encryptECIES toy toy_entropy (toy_priv 3) (toy_pub 5) (replicate 16 9)))"
    by code_simp
  define l where "l = fst (encryptECIES toy toy_entropy (toy_priv 3) (toy_pub 5) (replicate 16 9))"
  define ct where "ct = projr (snd (encryptECIES toy toy_entropy (toy_priv 3) (toy_pub 5) (replicate 16 9)))"
  have ok: "encryptECIES toy toy_entropy (toy_priv 3) (toy_pub 5) (replicate 16 9) = (l, Inr ct)"
    unfolding l_def ct_def using r by (simp add: prod_eq_iff)
  from ciphertext_length [OF toy_block_cipher ok] show ?thesis
    using r by (simp add: ok toy_block_cipher)
qed

text \<open>
  C2, as the code has it. A ciphertext that encryption returns has at least 64 bytes, and
  exactly 64 for the empty plaintext: 16 of IV, 32 of MAC (two cipher blocks, not one) and
  one padding block of 16. This is the minimum that decryption asks for. (The model goes on
  past the \<^verbatim>\<open>front()\<close> taken of the empty plaintext, see C10.)
\<close>

theorem empty_plaintext_envelope:
  assumes "block_cipher P" and "encryptECIES P entropy self other plaintext = (l, Inr ciphertext)"
  shows "64 \<le> length ciphertext \<and> (plaintext = [] \<longrightarrow> length ciphertext = 64)"
  using encrypt_ok_length [OF assms] by auto

theorem empty_plaintext_envelope_witness:
  "block_cipher toy \<and>
   \<not> isl (snd (encryptECIES toy toy_entropy (toy_priv 3) (toy_pub 5) [])) \<and>
   length (projr (snd (encryptECIES toy toy_entropy (toy_priv 3) (toy_pub 5) []))) = 64"
proof -
  have r: "\<not> isl (snd (encryptECIES toy toy_entropy (toy_priv 3) (toy_pub 5) []))"
    by code_simp
  define l where "l = fst (encryptECIES toy toy_entropy (toy_priv 3) (toy_pub 5) [])"
  define ct where "ct = projr (snd (encryptECIES toy toy_entropy (toy_priv 3) (toy_pub 5) []))"
  have ok: "encryptECIES toy toy_entropy (toy_priv 3) (toy_pub 5) [] = (l, Inr ct)"
    unfolding l_def ct_def using r by (simp add: prod_eq_iff)
  from empty_plaintext_envelope [OF toy_block_cipher ok] show ?thesis
    using r by (simp add: ok toy_block_cipher)
qed

text \<open>The length stated in the specification, 48 bytes, is not what the empty plaintext gives.\<close>

theorem empty_plaintext_48_counterexample:
  "map_sum id length (snd (encryptECIES toy toy_entropy (toy_priv 3) (toy_pub 5) [])) = Inr 64"
  by code_simp

text \<open>
  C1. Round trip: if \<open>A\<close> encrypting for \<open>B\<close> returns a ciphertext, then \<open>B\<close> decrypting from
  \<open>A\<close> returns the plaintext, for every plaintext (the empty one included, with the
  reservation of C10). The keys are valid; that one of them holds a private scalar follows
  from the success of the encryption. Of the primitives it is assumed that the curve has the
  Diffie-Hellman property, that block decryption undoes block encryption, and that
  \<^verbatim>\<open>EVP_DecryptInit_ex\<close> succeeds; the MAC needs no assumption, decryption recomputes the
  value that encryption computed.
\<close>

theorem round_trip:
  assumes bc: "block_cipher P" and dh: "dh_symmetric P G"
    and A: "valid_key G A" and B: "valid_key G B"
    and init: "\<forall>k ivec. cipher_init_ok P False k ivec"
    and ok: "encryptECIES P entropy A B plaintext = (l, Inr ciphertext)"
  shows "snd (decryptECIES P B A ciphertext) = Inr plaintext"
proof -
  note E = block_cipher_length [OF bc]
  from encrypt_ok_parts [OF ok] obtain secret l1 mac rnd where
    g: "getECIESSecret P A B = ([Call API_ECDH_compute_key 32], Inr secret)" and
    h: "makeHMAC P secret plaintext = (l1, Inr mac)" and e: "entropy = Some rnd"
    by blast
  from encrypt_ok_envelope [OF E ok g h e]
  have small: "length plaintext < 2147483648"
    and ct: "ciphertext = envelope P secret (map rnd [0..<16]) mac plaintext"
    by simp_all
  have g': "getECIESSecret P B A = ([Call API_ECDH_compute_key 32], Inr secret)"
    using getECIESSecret_sym [OF dh B A] g by simp
  have "cipher_init_ok P False secret (map rnd [0..<16])"
    using init by simp
  from decrypt_envelope [OF bc g' h _ this small] show ?thesis
    by (simp add: ct)
qed

theorem round_trip_witness:
  "block_cipher toy \<and> dh_symmetric toy toy_G \<and> valid_key toy_G (toy_priv 3) \<and>
   valid_key toy_G (toy_priv 5) \<and> (\<forall>k ivec. cipher_init_ok toy False k ivec) \<and>
   \<not> isl (snd (encryptECIES toy toy_entropy (toy_priv 3) (toy_priv 5) [1, 2, 3])) \<and>
   snd (decryptECIES toy (toy_priv 5) (toy_priv 3)
          (projr (snd (encryptECIES toy toy_entropy (toy_priv 3) (toy_priv 5) [1, 2, 3])))) =
     Inr [1, 2, 3]"
proof -
  have i: "\<forall>k ivec. cipher_init_ok toy False k ivec"
    by (simp add: toy_def)
  have r: "\<not> isl (snd (encryptECIES toy toy_entropy (toy_priv 3) (toy_priv 5) [1, 2, 3]))"
    by code_simp
  define l where "l = fst (encryptECIES toy toy_entropy (toy_priv 3) (toy_priv 5) [1, 2, 3])"
  define ct where "ct = projr (snd (encryptECIES toy toy_entropy (toy_priv 3) (toy_priv 5) [1, 2, 3]))"
  have ok: "encryptECIES toy toy_entropy (toy_priv 3) (toy_priv 5) [1, 2, 3] = (l, Inr ct)"
    unfolding l_def ct_def using r by (simp add: prod_eq_iff)
  from round_trip [OF toy_block_cipher toy_dh toy_keys(1) toy_keys(1) i ok] show ?thesis
    using r i by (simp add: ok toy_block_cipher toy_dh toy_keys)
qed

text \<open>
  C10. \<open>makeHMAC\<close> and \<open>encryptECIES\<close> take \<^verbatim>\<open>&(data.front())\<close> and \<^verbatim>\<open>&(plaintext.front())\<close>
  whatever the size. On a non-empty plaintext no run of either takes the front of an empty
  vector. On the empty plaintext \<open>makeHMAC\<close> does as soon as its context is initialised, and
  a successful encryption does so twice: in \<open>makeHMAC\<close> and at its own
  \<^verbatim>\<open>plaintext.front()\<close>.
\<close>

theorem front_of_empty_plaintext:
  "(data \<noteq> [] \<longrightarrow> front_of_empty_vector \<notin> set (fst (makeHMAC P secret data))) \<and>
   (hmac_init_ok P secret \<longrightarrow> front_of_empty_vector \<in> set (fst (makeHMAC P secret []))) \<and>
   (plaintext \<noteq> [] \<longrightarrow>
      front_of_empty_vector \<notin> set (fst (encryptECIES P entropy self other plaintext))) \<and>
   (block_cipher P \<and> encryptECIES P entropy self other [] = (l, Inr ciphertext) \<longrightarrow>
      count_list l front_of_empty_vector = 2)"
proof (intro conjI impI)
  assume "data \<noteq> []"
  then show "front_of_empty_vector \<notin> set (fst (makeHMAC P secret data))"
    using no_ub_makeHMAC [of data P secret] by (simp add: no_ub_def)
next
  assume "hmac_init_ok P secret"
  then show "front_of_empty_vector \<in> set (fst (makeHMAC P secret []))"
    by (rule ub_makeHMAC_empty)
next
  assume "plaintext \<noteq> []"
  then show "front_of_empty_vector \<notin> set (fst (encryptECIES P entropy self other plaintext))"
    using no_ub_encryptECIES [of plaintext P entropy self other] by (simp add: no_ub_def)
next
  assume a: "block_cipher P \<and> encryptECIES P entropy self other [] = (l, Inr ciphertext)"
  then have ok: "encryptECIES P entropy self other [] = (l, Inr ciphertext)" by simp
  note E = block_cipher_length [OF a [THEN conjunct1]]
  from encrypt_ok_parts [OF ok] obtain secret' l1 mac rnd where
    g: "getECIESSecret P self other = ([Call API_ECDH_compute_key 32], Inr secret')" and
    h: "makeHMAC P secret' [] = (l1, Inr mac)" and e: "entropy = Some rnd"
    by blast
  have l1: "count_list l1 front_of_empty_vector = 1"
    using h by (auto simp: makeHMAC_def ret_code_def logged_simps Let_def split: if_splits option.splits)
  from encrypt_ok_envelope [OF E ok g h e]
  have "l = [Call API_ECDH_compute_key 32] @ l1 @ [Call API_RAND_bytes 1, Call API_EVP_EncryptInit_ex 1,
                        Call API_EVP_EncryptUpdate 1] @ [front_of_empty_vector] @
               [Call API_EVP_EncryptUpdate 1, Call API_EVP_EncryptFinal_ex 1]"
    by simp
  then show "count_list l front_of_empty_vector = 2"
    by (simp add: l1)
qed


theorem front_of_empty_plaintext_witness:
  "front_of_empty_vector \<notin> set (fst (makeHMAC toy [7] [1])) \<and>
   front_of_empty_vector \<in> set (fst (makeHMAC toy [7] [])) \<and>
   front_of_empty_vector \<notin> set (fst (encryptECIES toy toy_entropy (toy_priv 3) (toy_pub 5) [1, 2, 3])) \<and>
   \<not> isl (snd (encryptECIES toy toy_entropy (toy_priv 3) (toy_pub 5) [])) \<and>
   count_list (fst (encryptECIES toy toy_entropy (toy_priv 3) (toy_pub 5) [])) front_of_empty_vector = 2"
proof -
  have r: "\<not> isl (snd (encryptECIES toy toy_entropy (toy_priv 3) (toy_pub 5) []))"
    by code_simp
  define l where "l = fst (encryptECIES toy toy_entropy (toy_priv 3) (toy_pub 5) [])"
  define ct where "ct = projr (snd (encryptECIES toy toy_entropy (toy_priv 3) (toy_pub 5) []))"
  have ok: "encryptECIES toy toy_entropy (toy_priv 3) (toy_pub 5) [] = (l, Inr ct)"
    unfolding l_def ct_def using r by (simp add: prod_eq_iff)
  have h: "hmac_init_ok toy [7]"
    by (simp add: toy_def)
  from front_of_empty_plaintext [where data = "[1]" and P = toy and secret = "[7]" and plaintext = "[1, 2, 3]"
      and entropy = toy_entropy and self = "toy_priv 3" and other = "toy_pub 5" and l = l
      and ciphertext = ct]
  show ?thesis
    using r h ok by (simp add: toy_block_cipher)
qed

section \<open>What decryption returns is authenticated\<close>

text \<open>
  Decryption fails with \<^verbatim>\<open>plaintext had bad hmac\<close> exactly when the comparison of the MAC
  taken from the ciphertext with the MAC recomputed over the recovered plaintext found them
  different; and it returns a plaintext only after that comparison found them equal, the
  recomputation over that very plaintext having succeeded. (Whether the comparison, the
  \<^verbatim>\<open>!=\<close> of \<^verbatim>\<open>uint256\<close>, takes the same time on all inputs is outside this model.)
\<close>

lemma makeHMAC_errors:
  "snd (makeHMAC P s d) = Inl e \<Longrightarrow>
     e = runtime_error ''init hmac'' \<or> e = runtime_error ''update hmac'' \<or>
     e = runtime_error ''finalize hmac''"
  by (auto simp: makeHMAC_def front_def Let_def bnd_call bnd_emit split: if_splits option.splits)

lemma decrypt_mac_check:
  assumes "decryptECIES P self other ct = (l, res)"
  shows "(res = Inl (runtime_error ''plaintext had bad hmac'') \<longleftrightarrow> hmac_compared True \<in> set l) \<and>
         (\<forall>pt. res = Inr pt \<longrightarrow>
            hmac_compared False \<in> set l \<and>
            (\<exists>secret l0 mac. getECIESSecret P self other = (l0, Inr secret) \<and>
                             snd (makeHMAC P secret pt) = Inr mac))"
proof (cases "getECIESSecret P self other")
  case (Pair l0 r0)
  show ?thesis
  proof (cases r0)
    case (Inl e)
    with Pair assms getECIESSecret_err_trace [of P self other l0 e] show ?thesis
      by (auto simp: decryptECIES_def getECIESSecret_def ret_def throw_def ECDH_compute_key_def
                        ecies_key_derivation_def bnd_call bnd_Inr
                  split: option.splits sum.splits prod.splits if_splits)
  next
    case (Inr secret)
    with Pair assms getECIESSecret_ok_trace [of P self other l0 secret] show ?thesis
      apply (simp add: decryptECIES_def front_def Let_def ret_code_def bnd_Inr bnd_call bnd_emit
                  split: if_splits prod.splits)
      apply (auto simp: ret_code_def fst_bnd snd_bnd bnd_Inr bnd_call bnd_emit
                  split: if_splits sum.splits dest!: makeHMAC_trace makeHMAC_errors)
      done
  qed
qed

end
